theory Spec2Isabelle
  imports Complex_Main "HOL-Library.AList"
begin

section \<open>The index calculator of gsci/index.py\<close>

text \<open>
  A shallow embedding of \<^verbatim>\<open>src/gsci/index.py\<close> and \<^verbatim>\<open>src/gsci/types.py\<close>.

  Conventions of the embedding.
  \<^item> A Python \<^verbatim>\<open>float\<close> is a \<^typ>\<open>real\<close>: arithmetic is exact, there is no rounding, no
    infinity and no NaN.
  \<^item> A \<^verbatim>\<open>date\<close> is its proleptic Gregorian ordinal (\<^verbatim>\<open>date.toordinal()\<close>), a \<^typ>\<open>nat\<close>;
    the order of dates is the order of ordinals.
  \<^item> A \<^verbatim>\<open>dict\<close> is an association list in insertion order, with distinct keys where it
    comes from a provider; a comprehension over a key view is a \<^const>\<open>map\<close>; \<^verbatim>\<open>d[k] = v\<close> is
    \<^const>\<open>AList.update\<close> (overwrite in place, or append a new key), \<^verbatim>\<open>d.get(k, x)\<close> is
    \<open>dict_get\<close>, \<^verbatim>\<open>d[k]\<close> is \<open>dict_index\<close>, which raises \<^verbatim>\<open>KeyError\<close> on an absent key.
  \<^item> A \<^verbatim>\<open>set\<close> of commodities is a duplicate-free list; the union of two key sets is
    \<^term>\<open>remdups (xs @ ys)\<close>. Python leaves the iteration order of a set open; the
    embedding fixes one.
  \<^item> Every exception is a value of type \<open>error\<close>, and a function that may raise returns
    \<open>error + 'a\<close>. The price provider may raise: it returns \<^typ>\<open>real option\<close>, where
    \<^const>\<open>None\<close> stands for an exception of the provider.
\<close>

subsection \<open>types.py\<close>

type_synonym date = nat
type_synonym CommodityId = string
type_synonym 'v dict = "(CommodityId \<times> 'v) list"

text \<open>\<^verbatim>\<open>DateLike = Union[date, datetime, str]\<close>; a \<^verbatim>\<open>datetime\<close> is a date and a time of day.\<close>

type_synonym datetime = "date \<times> nat"

datatype DateLike = DateVal date | DateTimeVal datetime | StrVal string

type_synonym CPWFunction = "date \<Rightarrow> real dict"
type_synonym PriceFunction = "date \<Rightarrow> CommodityId \<Rightarrow> real option"
type_synonym MDEFunction = "date \<Rightarrow> CommodityId \<Rightarrow> bool"
type_synonym CollateralRateFunction = "date \<Rightarrow> real"

datatype IndexMode = EXCESS_RETURN | TOTAL_RETURN

record IndexState =
  levels :: "(date \<times> real) list"
  weights :: "(date \<times> real dict) list"
  quantities :: "(date \<times> real dict) list"
  price_cache :: "((date \<times> CommodityId) \<times> real) list"

subsection \<open>Exceptions and dictionary access\<close>

datatype error =
    EmptyDates          \<comment> \<open>\<^verbatim>\<open>ValueError("dates must be non-empty")\<close>\<close>
  | CollateralMissing   \<comment> \<open>\<^verbatim>\<open>ValueError("TR mode requires collateral_rate callable")\<close>\<close>
  | BadIsoString        \<comment> \<open>\<^verbatim>\<open>ValueError\<close> of \<^verbatim>\<open>datetime.fromisoformat\<close>\<close>
  | ProviderError       \<comment> \<open>an exception raised by the price provider\<close>
  | KeyError
  | IndexError

definition dict_get :: "('k \<times> 'v) list \<Rightarrow> 'k \<Rightarrow> 'v \<Rightarrow> 'v" where
  "dict_get d k dflt = (case map_of d k of None \<Rightarrow> dflt | Some v \<Rightarrow> v)"

definition dict_index :: "('k \<times> 'v) list \<Rightarrow> 'k \<Rightarrow> error + 'v" where
  "dict_index d k = (case map_of d k of None \<Rightarrow> Inl KeyError | Some v \<Rightarrow> Inr v)"

definition keys_union :: "'k list \<Rightarrow> 'k list \<Rightarrow> 'k list" where
  "keys_union xs ys = remdups (xs @ ys)"

subsection \<open>Module-level helpers\<close>

text \<open>
  \<^verbatim>\<open>_to_date\<close>. The parser \<^verbatim>\<open>datetime.fromisoformat\<close> belongs to the Python library; it
  is the parameter \<open>fromisoformat\<close>, which returns \<^const>\<open>None\<close> where the library raises.
\<close>

definition to_date :: "(string \<Rightarrow> datetime option) \<Rightarrow> DateLike \<Rightarrow> error + date" where
  "to_date fromisoformat d =
     (case d of
        DateVal x \<Rightarrow> Inr x
      | DateTimeVal dt \<Rightarrow> Inr (fst dt)
      | StrVal s \<Rightarrow> (case fromisoformat s of None \<Rightarrow> Inl BadIsoString | Some dt \<Rightarrow> Inr (fst dt)))"

text \<open>The generator \<^verbatim>\<open>_to_date(d) for d in dates\<close>: the first failure aborts.\<close>

fun to_dates :: "(string \<Rightarrow> datetime option) \<Rightarrow> DateLike list \<Rightarrow> error + date list" where
  "to_dates fromisoformat [] = Inr []"
| "to_dates fromisoformat (d # ds) =
     (case to_date fromisoformat d of
        Inl e \<Rightarrow> Inl e
      | Inr x \<Rightarrow> (case to_dates fromisoformat ds of Inl e \<Rightarrow> Inl e | Inr xs \<Rightarrow> Inr (x # xs)))"

definition normalize_weights :: "real dict \<Rightarrow> real dict" where
  "normalize_weights ws =
     (let nonneg = map (\<lambda>(c, w). (c, max 0 w)) ws;
          s = sum_list (map snd nonneg)
      in if s \<le> 0 then map (\<lambda>(c, w). (c, 0)) nonneg
         else map (\<lambda>(c, w). (c, w / s)) nonneg)"

definition default_tol :: real where
  "default_tol = 1 / 10 ^ 10"

definition maps_close :: "real dict \<Rightarrow> real dict \<Rightarrow> real \<Rightarrow> bool" where
  "maps_close a b tol =
     list_all (\<lambda>k. \<not> tol < \<bar>dict_get a k 0 - dict_get b k 0\<bar>)
       (keys_union (map fst a) (map fst b))"

subsection \<open>Configuration and calculator\<close>

record GSCIConfig =
  start_level :: real
  mode :: IndexMode

definition default_config :: GSCIConfig where
  "default_config = \<lparr>start_level = 100, mode = EXCESS_RETURN\<rparr>"

record GSCIIndexCalculator =
  cpw :: CPWFunction
  price :: PriceFunction
  mde :: MDEFunction
  collateral_rate :: "CollateralRateFunction option"
  config :: GSCIConfig

text \<open>\<^verbatim>\<open>__init__\<close>: \<^verbatim>\<open>self.config = config or GSCIConfig()\<close>.\<close>

definition init_calculator ::
  "CPWFunction \<Rightarrow> PriceFunction \<Rightarrow> MDEFunction \<Rightarrow> CollateralRateFunction option \<Rightarrow>
   GSCIConfig option \<Rightarrow> GSCIIndexCalculator" where
  "init_calculator cpw_f price_f mde_f coll cfg =
     \<lparr>cpw = cpw_f, price = price_f, mde = mde_f, collateral_rate = coll,
      config = (case cfg of None \<Rightarrow> default_config | Some c \<Rightarrow> c)\<rparr>"

subsection \<open>Price lookups\<close>

text \<open>\<^verbatim>\<open>_get_price\<close>: the provider is called only for a key the cache does not hold.\<close>

definition get_price ::
  "GSCIIndexCalculator \<Rightarrow> IndexState \<Rightarrow> date \<Rightarrow> CommodityId \<Rightarrow> error + (IndexState \<times> real)" where
  "get_price self st d c =
     (case map_of (price_cache st) (d, c) of
        Some v \<Rightarrow> Inr (st, v)
      | None \<Rightarrow>
          (case price self d c of
             None \<Rightarrow> Inl ProviderError
           | Some v \<Rightarrow> Inr (st\<lparr>price_cache := AList.update (d, c) v (price_cache st)\<rparr>, v)))"

text \<open>\<^verbatim>\<open>_safe_price\<close>: \<^verbatim>\<open>except Exception: return 1.0\<close>.\<close>

definition safe_price ::
  "GSCIIndexCalculator \<Rightarrow> IndexState \<Rightarrow> date \<Rightarrow> CommodityId \<Rightarrow> IndexState \<times> real" where
  "safe_price self st d c =
     (case get_price self st d c of Inl e \<Rightarrow> (st, 1) | Inr r \<Rightarrow> r)"

text \<open>The comprehension \<^verbatim>\<open>{c: self._get_price(state, d, c) for c in keys}\<close> over a key view.\<close>

fun get_prices ::
  "GSCIIndexCalculator \<Rightarrow> IndexState \<Rightarrow> date \<Rightarrow> CommodityId list \<Rightarrow>
   error + (IndexState \<times> real dict)" where
  "get_prices self st d [] = Inr (st, [])"
| "get_prices self st d (c # cs) =
     (case get_price self st d c of
        Inl e \<Rightarrow> Inl e
      | Inr (st1, p) \<Rightarrow>
          (case get_prices self st1 d cs of
             Inl e \<Rightarrow> Inl e
           | Inr (st2, ps) \<Rightarrow> Inr (st2, (c, p) # ps)))"

text \<open>\<^verbatim>\<open>_weights_from_quantities\<close>.\<close>

definition weights_from_quantities :: "real dict \<Rightarrow> real dict \<Rightarrow> real dict" where
  "weights_from_quantities qs ps =
     (let vals = map (\<lambda>c. (c, dict_get qs c 0 * dict_get ps c 0))
                   (keys_union (map fst qs) (map fst ps));
          total = sum_list (map snd vals)
      in if total \<le> 0 then map (\<lambda>(c, v). (c, 0)) vals
         else map (\<lambda>(c, v). (c, v / total)) vals)"

subsection \<open>The body of compute\<close>

text \<open>Lines 100-104: the quantities at the first date.\<close>

fun init_quantities :: "real dict \<Rightarrow> real dict \<Rightarrow> real \<Rightarrow> real dict \<Rightarrow> error + real dict" where
  "init_quantities [] p_t0 level acc = Inr acc"
| "init_quantities ((c, w) # rest) p_t0 level acc =
     (case dict_index p_t0 c of
        Inl e \<Rightarrow> Inl e
      | Inr price_c \<Rightarrow>
          init_quantities rest p_t0 level
            (AList.update c (if price_c = 0 then 0 else (w * level) / price_c) acc))"

text \<open>Lines 119-122: the effective prices at \<open>t\<close>, a disrupted commodity keeping its previous price.\<close>

fun eff_prices ::
  "GSCIIndexCalculator \<Rightarrow> IndexState \<Rightarrow> date \<Rightarrow> real dict \<Rightarrow> CommodityId list \<Rightarrow> real dict \<Rightarrow>
   error + (IndexState \<times> real dict)" where
  "eff_prices self st t p_prev [] acc = Inr (st, acc)"
| "eff_prices self st t p_prev (c # cs) acc =
     (case get_price self st t c of
        Inl e \<Rightarrow> Inl e
      | Inr (st1, p_t) \<Rightarrow>
          (if mde self t c
           then (case dict_index p_prev c of
                   Inl e \<Rightarrow> Inl e
                 | Inr p \<Rightarrow> eff_prices self st1 t p_prev cs (AList.update c p acc))
           else eff_prices self st1 t p_prev cs (AList.update c p_t acc)))"

text \<open>Lines 125 and 129: \<^verbatim>\<open>sum(quantities_prev[c] * p[c] for c in quantities_prev.keys())\<close>.\<close>

fun sum_products :: "real dict \<Rightarrow> real dict \<Rightarrow> CommodityId list \<Rightarrow> error + real" where
  "sum_products qs ps [] = Inr 0"
| "sum_products qs ps (c # cs) =
     (case dict_index qs c of
        Inl e \<Rightarrow> Inl e
      | Inr q \<Rightarrow>
          (case dict_index ps c of
             Inl e \<Rightarrow> Inl e
           | Inr p \<Rightarrow>
               (case sum_products qs ps cs of Inl e \<Rightarrow> Inl e | Inr s \<Rightarrow> Inr (q * p + s))))"

text \<open>Lines 125-130: the excess return of the step.\<close>

definition er_return_of :: "real dict \<Rightarrow> real dict \<Rightarrow> real dict \<Rightarrow> error + real" where
  "er_return_of quantities_prev p_prev p_eff_t =
     (case sum_products quantities_prev p_prev (map fst quantities_prev) of
        Inl e \<Rightarrow> Inl e
      | Inr value_prev \<Rightarrow>
          (if value_prev \<le> 0 then Inr 0
           else (case sum_products quantities_prev p_eff_t (map fst quantities_prev) of
                   Inl e \<Rightarrow> Inl e
                 | Inr value_t \<Rightarrow> Inr ((value_t / value_prev) - 1))))"

text \<open>Lines 132-139: the new level, with the collateral accrual in total-return mode.\<close>

definition level_update :: "GSCIIndexCalculator \<Rightarrow> real \<Rightarrow> real \<Rightarrow> date \<Rightarrow> error + real" where
  "level_update self level er_return t_prev =
     (let level_new = level * (1 + er_return)
      in if mode (config self) = TOTAL_RETURN
         then (case collateral_rate self of
                 None \<Rightarrow> Inl CollateralMissing
               | Some rate \<Rightarrow> Inr (level_new * (1 + rate t_prev)))
         else Inr level_new)"

text \<open>
  Line 156: the comprehension of \<^verbatim>\<open>prev_values\<close>. Python evaluates the default argument
  \<^verbatim>\<open>self._safe_price(state, t_prev, c)\<close> of \<^verbatim>\<open>p_prev.get\<close> for every commodity, held or not.
\<close>

fun prev_values_of ::
  "GSCIIndexCalculator \<Rightarrow> IndexState \<Rightarrow> date \<Rightarrow> real dict \<Rightarrow> real dict \<Rightarrow> CommodityId list \<Rightarrow>
   IndexState \<times> real dict" where
  "prev_values_of self st t_prev quantities_prev p_prev [] = (st, [])"
| "prev_values_of self st t_prev quantities_prev p_prev (c # cs) =
     (let (st1, sp) = safe_price self st t_prev c;
          v = dict_get quantities_prev c 0 * dict_get p_prev c sp;
          (st2, rest) = prev_values_of self st1 t_prev quantities_prev p_prev cs
      in (st2, (c, v) # rest))"

text \<open>Lines 173-174: the disrupted commodities keep their quantities.\<close>

fun keep_disrupted :: "real dict \<Rightarrow> CommodityId list \<Rightarrow> real dict \<Rightarrow> real dict" where
  "keep_disrupted quantities_prev [] acc = acc"
| "keep_disrupted quantities_prev (c # cs) acc =
     keep_disrupted quantities_prev cs (AList.update c (dict_get quantities_prev c 0) acc)"

text \<open>Lines 177-182: the other commodities are set to their target at the previous price.\<close>

fun allocate ::
  "GSCIIndexCalculator \<Rightarrow> IndexState \<Rightarrow> date \<Rightarrow> real dict \<Rightarrow> real dict \<Rightarrow> real \<Rightarrow>
   CommodityId list \<Rightarrow> real dict \<Rightarrow> IndexState \<times> real dict" where
  "allocate self st t_prev p_prev target remaining_notional [] acc = (st, acc)"
| "allocate self st t_prev p_prev target remaining_notional (c # cs) acc =
     (let w = dict_get target c 0;
          (st1, sp) = safe_price self st t_prev c;
          p_c_prev = dict_get p_prev c sp;
          notional_c = w * remaining_notional;
          qty_c = (if p_c_prev = 0 then 0 else notional_c / p_c_prev)
      in allocate self st1 t_prev p_prev target remaining_notional cs (AList.update c qty_c acc))"

text \<open>Line 150: the disrupted set, taken over the keys of the two weight maps.\<close>

definition disrupted_of :: "GSCIIndexCalculator \<Rightarrow> date \<Rightarrow> real dict \<Rightarrow> real dict \<Rightarrow> CommodityId list" where
  "disrupted_of self t cpw_prev cpw_now =
     filter (\<lambda>c. mde self t c) (keys_union (map fst cpw_prev) (map fst cpw_now))"

text \<open>Lines 148-182: the reconstitution branch.\<close>

definition reconstitute ::
  "GSCIIndexCalculator \<Rightarrow> IndexState \<Rightarrow> date \<Rightarrow> date \<Rightarrow> real dict \<Rightarrow> real dict \<Rightarrow> real dict \<Rightarrow>
   real dict \<Rightarrow> IndexState \<times> real dict" where
  "reconstitute self st t_prev t quantities_prev p_prev cpw_prev cpw_now =
     (let disrupted = disrupted_of self t cpw_prev cpw_now;
          all_commodities = keys_union (map fst quantities_prev) (map fst cpw_now);
          (st1, prev_values) = prev_values_of self st t_prev quantities_prev p_prev all_commodities;
          total_prev = sum_list (map snd prev_values);
          fixed_notional = sum_list (map (\<lambda>c. dict_get prev_values c 0) disrupted);
          non_disrupted = filter (\<lambda>c. c \<notin> set disrupted) all_commodities;
          target_non_disrupted = normalize_weights (map (\<lambda>c. (c, dict_get cpw_now c 0)) non_disrupted);
          remaining_notional = max (total_prev - fixed_notional) 0;
          quantities_t = keep_disrupted quantities_prev disrupted []
      in allocate self st1 t_prev p_prev target_non_disrupted remaining_notional
           non_disrupted quantities_t)"

text \<open>Lines 112-194: one iteration of the loop over consecutive dates.\<close>

definition step ::
  "GSCIIndexCalculator \<Rightarrow> date \<times> date \<Rightarrow> IndexState \<times> real \<Rightarrow> error + (IndexState \<times> real)" where
  "step self tt sl =
     (let (t_prev, t) = tt; (st, level) = sl in
      case dict_index (quantities st) t_prev of
        Inl e \<Rightarrow> Inl e
      | Inr quantities_prev \<Rightarrow>
      (case get_prices self st t_prev (map fst quantities_prev) of
        Inl e \<Rightarrow> Inl e
      | Inr (st1, p_prev) \<Rightarrow>
      (case eff_prices self st1 t p_prev (map fst quantities_prev) [] of
        Inl e \<Rightarrow> Inl e
      | Inr (st2, p_eff_t) \<Rightarrow>
      (case er_return_of quantities_prev p_prev p_eff_t of
        Inl e \<Rightarrow> Inl e
      | Inr er_return \<Rightarrow>
      (case level_update self level er_return t_prev of
        Inl e \<Rightarrow> Inl e
      | Inr level_new \<Rightarrow>
          (let cpw_prev = normalize_weights (cpw self t_prev);
               cpw_now = normalize_weights (cpw self t);
               is_reconstitution = (\<not> maps_close cpw_prev cpw_now default_tol);
               (st3, quantities_t) =
                 (if is_reconstitution
                  then reconstitute self st2 t_prev t quantities_prev p_prev cpw_prev cpw_now
                  else (st2, quantities_prev));
               weights_t = weights_from_quantities quantities_t p_eff_t
           in Inr (st3\<lparr>levels := AList.update t level_new (levels st3),
                        quantities := AList.update t quantities_t (quantities st3),
                        weights := AList.update t weights_t (weights st3)\<rparr>,
                   level_new)))))))"

text \<open>The loop \<^verbatim>\<open>for t_prev, t in zip(date_list[:-1], date_list[1:])\<close>.\<close>

fun run_steps ::
  "GSCIIndexCalculator \<Rightarrow> (date \<times> date) list \<Rightarrow> IndexState \<times> real \<Rightarrow> error + (IndexState \<times> real)" where
  "run_steps self [] sl = Inr sl"
| "run_steps self (tt # tts) sl =
     (case step self tt sl of Inl e \<Rightarrow> Inl e | Inr sl' \<Rightarrow> run_steps self tts sl')"

text \<open>\<^verbatim>\<open>float(initial_level or self.config.start_level)\<close>: \<^verbatim>\<open>None\<close> and \<^verbatim>\<open>0.0\<close> are both falsy.\<close>

definition starting_level :: "GSCIIndexCalculator \<Rightarrow> real option \<Rightarrow> real" where
  "starting_level self initial_level =
     (case initial_level of
        None \<Rightarrow> start_level (config self)
      | Some v \<Rightarrow> if v = 0 then start_level (config self) else v)"

definition empty_state :: IndexState where
  "empty_state = \<lparr>levels = [], weights = [], quantities = [], price_cache = []\<rparr>"

text \<open>Lines 92-109: the state at the first date.\<close>

definition bootstrap ::
  "GSCIIndexCalculator \<Rightarrow> date \<Rightarrow> real \<Rightarrow> error + (IndexState \<times> real)" where
  "bootstrap self t0 level =
     (let state = empty_state;
          cpw_t0 = normalize_weights (cpw self t0)
      in case get_prices self state t0 (map fst cpw_t0) of
           Inl e \<Rightarrow> Inl e
         | Inr (st1, p_t0) \<Rightarrow>
             (case init_quantities cpw_t0 p_t0 level [] of
                Inl e \<Rightarrow> Inl e
              | Inr quantities_t0 \<Rightarrow>
                  (let weights_t0 = weights_from_quantities quantities_t0 p_t0
                   in Inr (st1\<lparr>levels := AList.update t0 level (levels st1),
                                quantities := AList.update t0 quantities_t0 (quantities st1),
                                weights := AList.update t0 weights_t0 (weights st1)\<rparr>,
                           level))))"

text \<open>\<^verbatim>\<open>GSCIIndexCalculator.compute\<close>.\<close>

definition compute ::
  "GSCIIndexCalculator \<Rightarrow> (string \<Rightarrow> datetime option) \<Rightarrow> DateLike list \<Rightarrow> real option \<Rightarrow>
   error + IndexState" where
  "compute self fromisoformat dates initial_level =
     (if dates = [] then Inl EmptyDates
      else case to_dates fromisoformat dates of
        Inl e \<Rightarrow> Inl e
      | Inr ds \<Rightarrow>
          (let date_list = sort ds;
               level = starting_level self initial_level
           in case date_list of
                [] \<Rightarrow> Inl IndexError
              | t0 # rest \<Rightarrow>
                  (case bootstrap self t0 level of
                     Inl e \<Rightarrow> Inl e
                   | Inr sl \<Rightarrow>
                       (case run_steps self (zip (butlast date_list) (tl date_list)) sl of
                          Inl e \<Rightarrow> Inl e
                        | Inr (st, lv) \<Rightarrow> Inr st))))"

subsection \<open>Notions used in the statements\<close>

text \<open>
  The cache is consistent with the provider when it holds only prices the provider returns.
  The cache of a run starts empty and is written by \<open>get_price\<close> alone, so it stays so.
\<close>

definition cache_ok :: "GSCIIndexCalculator \<Rightarrow> IndexState \<Rightarrow> bool" where
  "cache_ok self st = list_all (\<lambda>(k, v). price self (fst k) (snd k) = Some v) (price_cache st)"

text \<open>The price a safe lookup yields: the provider's price, or the sentinel 1 where it raises.\<close>

definition provider_price :: "GSCIIndexCalculator \<Rightarrow> date \<Rightarrow> CommodityId \<Rightarrow> real" where
  "provider_price self d c = (case price self d c of None \<Rightarrow> 1 | Some v \<Rightarrow> v)"

text \<open>The value of holdings \<open>qs\<close> at prices \<open>ps\<close>, over the keys of both maps.\<close>

definition portfolio_value :: "real dict \<Rightarrow> real dict \<Rightarrow> real" where
  "portfolio_value qs ps =
     sum_list (map (\<lambda>c. dict_get qs c 0 * dict_get ps c 0) (keys_union (map fst qs) (map fst ps)))"

text \<open>Every reported weight map is computed from the quantities recorded at the same date.\<close>

definition weights_reported :: "IndexState \<Rightarrow> bool" where
  "weights_reported st =
     (\<forall>d w. map_of (weights st) d = Some w \<longrightarrow>
        (\<exists>q p. map_of (quantities st) d = Some q \<and> w = weights_from_quantities q p))"

text \<open>The keys of a dictionary after an assignment to key \<open>t\<close>.\<close>

definition add_key :: "'k \<Rightarrow> 'k list \<Rightarrow> 'k list" where
  "add_key t ks = (if t \<in> set ks then ks else ks @ [t])"

text \<open>
  The reconstitution transition at \<open>t\<close> in the words of the specification (section 4.5),
  for the quantities \<open>q\<close> held at \<open>t_prev\<close>. None of these definitions is taken from the
  reconstitution branch of the code.
  \<^item> The universe is the union of the held commodities and the commodities of the weight map
    of \<open>t\<close>.
  \<^item> A commodity is disrupted when the disruption provider flags it at \<open>t\<close>.
  \<^item> The previous price of a commodity is \<open>provider_price\<close> at \<open>t_prev\<close>: the previous close, or
    the sentinel 1 for a new commodity whose price the provider cannot give.
  \<^item> The fixed notional is the previous value of the disrupted commodities.
  \<^item> The weights of \<open>t\<close> are the raw weights, clamped at 0 and divided by their sum (all zero
    when the sum is not positive); the target shares are these weights restricted to the
    commodities that are not disrupted, clamped and divided by their sum in the same way.
\<close>

definition universe :: "GSCIIndexCalculator \<Rightarrow> date \<Rightarrow> real dict \<Rightarrow> CommodityId list" where
  "universe self t q = keys_union (map fst q) (map fst (cpw self t))"

definition disrupted :: "GSCIIndexCalculator \<Rightarrow> date \<Rightarrow> real dict \<Rightarrow> CommodityId list" where
  "disrupted self t q = filter (\<lambda>c. mde self t c) (universe self t q)"

definition prev_value :: "GSCIIndexCalculator \<Rightarrow> date \<Rightarrow> real dict \<Rightarrow> CommodityId \<Rightarrow> real" where
  "prev_value self t_prev q c = dict_get q c 0 * provider_price self t_prev c"

definition total_prev :: "GSCIIndexCalculator \<Rightarrow> date \<Rightarrow> date \<Rightarrow> real dict \<Rightarrow> real" where
  "total_prev self t_prev t q =
     sum_list (map (\<lambda>c. prev_value self t_prev q c) (universe self t q))"

definition fixed_notional :: "GSCIIndexCalculator \<Rightarrow> date \<Rightarrow> date \<Rightarrow> real dict \<Rightarrow> real" where
  "fixed_notional self t_prev t q =
     sum_list (map (\<lambda>c. prev_value self t_prev q c) (disrupted self t q))"

definition remaining_notional :: "GSCIIndexCalculator \<Rightarrow> date \<Rightarrow> date \<Rightarrow> real dict \<Rightarrow> real" where
  "remaining_notional self t_prev t q =
     max (total_prev self t_prev t q - fixed_notional self t_prev t q) 0"

definition weights_now :: "GSCIIndexCalculator \<Rightarrow> date \<Rightarrow> CommodityId \<Rightarrow> real" where
  "weights_now self t c =
     (let s = sum_list (map (\<lambda>k. max 0 (dict_get (cpw self t) k 0)) (map fst (cpw self t)))
      in if s \<le> 0 then 0 else max 0 (dict_get (cpw self t) c 0) / s)"

definition target_share :: "GSCIIndexCalculator \<Rightarrow> date \<Rightarrow> real dict \<Rightarrow> CommodityId \<Rightarrow> real" where
  "target_share self t q c =
     (let s = sum_list (map (\<lambda>k. max 0 (weights_now self t k))
                         (filter (\<lambda>k. \<not> mde self t k) (universe self t q)))
      in if s \<le> 0 then 0 else max 0 (weights_now self t c) / s)"

definition target_quantity ::
  "GSCIIndexCalculator \<Rightarrow> date \<Rightarrow> date \<Rightarrow> real dict \<Rightarrow> CommodityId \<Rightarrow> real" where
  "target_quantity self t_prev t q c =
     (if provider_price self t_prev c = 0 then 0
      else target_share self t q c * remaining_notional self t_prev t q
           / provider_price self t_prev c)"

text \<open>
  The level step in the words of the specification, for the quantities \<open>q\<close> held at \<open>t_prev\<close>:
  the effective price of a disrupted commodity is its previous price.
\<close>

definition eff_price :: "GSCIIndexCalculator \<Rightarrow> date \<Rightarrow> date \<Rightarrow> CommodityId \<Rightarrow> real" where
  "eff_price self t_prev t c =
     (if mde self t c then provider_price self t_prev c else provider_price self t c)"

definition value_prev :: "GSCIIndexCalculator \<Rightarrow> date \<Rightarrow> real dict \<Rightarrow> real" where
  "value_prev self t_prev q =
     sum_list (map (\<lambda>c. dict_get q c 0 * provider_price self t_prev c) (map fst q))"

definition value_t :: "GSCIIndexCalculator \<Rightarrow> date \<Rightarrow> date \<Rightarrow> real dict \<Rightarrow> real" where
  "value_t self t_prev t q =
     sum_list (map (\<lambda>c. dict_get q c 0 * eff_price self t_prev t c) (map fst q))"

definition er_return :: "GSCIIndexCalculator \<Rightarrow> date \<Rightarrow> date \<Rightarrow> real dict \<Rightarrow> real" where
  "er_return self t_prev t q =
     (if value_prev self t_prev q \<le> 0 then 0
      else value_t self t_prev t q / value_prev self t_prev q - 1)"

text \<open>The factor of the collateral accrual: \<open>1 + collateral_rate(t_prev)\<close> in total-return mode.\<close>

definition collateral_factor :: "GSCIIndexCalculator \<Rightarrow> date \<Rightarrow> real" where
  "collateral_factor self t_prev =
     (if mode (config self) = TOTAL_RETURN
      then (case collateral_rate self of None \<Rightarrow> 1 | Some rate \<Rightarrow> 1 + rate t_prev)
      else 1)"

text \<open>The canonical dates of an input sequence (none when a date does not parse).\<close>

definition dates_of :: "(string \<Rightarrow> datetime option) \<Rightarrow> DateLike list \<Rightarrow> date set" where
  "dates_of fromisoformat dates =
     (case to_dates fromisoformat dates of Inl e \<Rightarrow> {} | Inr ds \<Rightarrow> set ds)"

text \<open>Two calculators whose providers return the same outputs at date \<open>d\<close>.\<close>

definition providers_agree :: "GSCIIndexCalculator \<Rightarrow> GSCIIndexCalculator \<Rightarrow> date \<Rightarrow> bool" where
  "providers_agree self self' d \<longleftrightarrow>
     cpw self d = cpw self' d \<and>
     (\<forall>c. price self d c = price self' d c) \<and>
     (\<forall>c. mde self d c = mde self' d c) \<and>
     rel_option (\<lambda>f g. f d = g d) (collateral_rate self) (collateral_rate self')"

subsection \<open>Example calculators\<close>

text \<open>No ISO strings are parsed in the examples.\<close>

definition no_parse :: "string \<Rightarrow> datetime option" where
  "no_parse s = None"

text \<open>A price provider that knows commodity A only.\<close>

definition calc_fail :: GSCIIndexCalculator where
  "calc_fail = init_calculator (\<lambda>d. [(''A'', 1)])
     (\<lambda>d c. if c = ''A'' then Some 10 else None) (\<lambda>d c. False) None None"

text \<open>
  Weights \<open>{A: 1}\<close> on day 1, \<open>{B: 1}\<close> on day 2, \<open>{B: 1, C: 1}\<close> on day 3; commodity A is
  disrupted from day 2 on; flat prices.
\<close>

definition calc_dropped :: GSCIIndexCalculator where
  "calc_dropped = init_calculator
     (\<lambda>d. if d = 1 then [(''A'', 1)] else if d = 2 then [(''B'', 1)] else [(''B'', 1), (''C'', 1)])
     (\<lambda>d c. Some (if c = ''A'' then 10 else 5)) (\<lambda>d c. 2 \<le> d \<and> c = ''A'') None None"

text \<open>The state that the run of \<open>calc_dropped\<close> over days 1, 2, 3 returns.\<close>

definition state_dropped :: IndexState where
  "state_dropped =
     \<lparr>levels = [(1, 100), (2, 100), (3, 100)],
      weights = [(1, [(''A'', 1)]), (2, [(''B'', 0), (''A'', 1)]),
                 (3, [(''C'', 0), (''A'', 0), (''B'', 1)])],
      quantities = [(1, [(''A'', 10)]), (2, [(''A'', 10), (''B'', 0)]),
                    (3, [(''A'', 0), (''B'', 10), (''C'', 10)])],
      price_cache = [((1, ''A''), 10), ((2, ''A''), 10), ((1, ''B''), 5), ((2, ''B''), 5),
                     ((3, ''A''), 10), ((3, ''B''), 5), ((2, ''C''), 5)]\<rparr>"

text \<open>The state that the run of \<open>calc_fail\<close> over days 1, 2 returns.\<close>

definition state_hold :: IndexState where
  "state_hold =
     \<lparr>levels = [(1, 100), (2, 100)],
      weights = [(1, [(''A'', 1)]), (2, [(''A'', 1)])],
      quantities = [(1, [(''A'', 10)]), (2, [(''A'', 10)])],
      price_cache = [((1, ''A''), 10), ((2, ''A''), 10)]\<rparr>"

text \<open>
  Scenario B: total-return mode, a constant collateral rate of 0.0001, flat prices, constant
  weights \<open>{A: 0.5, B: 0.3, C: 0.2}\<close>, no disruption.
\<close>

definition calc_tr :: GSCIIndexCalculator where
  "calc_tr = init_calculator (\<lambda>d. [(''A'', 1/2), (''B'', 3/10), (''C'', 1/5)])
     (\<lambda>d c. Some (if c = ''A'' then 10 else 5)) (\<lambda>d c. False) (Some (\<lambda>d. 1/10000))
     (Some \<lparr>start_level = 100, mode = TOTAL_RETURN\<rparr>)"

definition state_tr :: IndexState where
  "state_tr =
     \<lparr>levels = [(1, 100), (2, 10001 / 100), (3, 100020001 / 1000000)],
      weights = [(1, [(''A'', 1 / 2), (''B'', 3 / 10), (''C'', 1 / 5)]),
                 (2, [(''A'', 1 / 2), (''B'', 3 / 10), (''C'', 1 / 5)]),
                 (3, [(''A'', 1 / 2), (''B'', 3 / 10), (''C'', 1 / 5)])],
      quantities = [(1, [(''A'', 5), (''B'', 6), (''C'', 4)]),
                    (2, [(''A'', 5), (''B'', 6), (''C'', 4)]),
                    (3, [(''A'', 5), (''B'', 6), (''C'', 4)])],
      price_cache = [((1, ''A''), 10), ((1, ''B''), 5), ((1, ''C''), 5),
                     ((2, ''A''), 10), ((2, ''B''), 5), ((2, ''C''), 5),
                     ((3, ''A''), 10), ((3, ''B''), 5), ((3, ''C''), 5)]\<rparr>"

text \<open>Total-return mode with no collateral-rate provider.\<close>

definition calc_tr_missing :: GSCIIndexCalculator where
  "calc_tr_missing = init_calculator (\<lambda>d. [(''A'', 1)])
     (\<lambda>d c. Some 10) (\<lambda>d c. False) None
     (Some \<lparr>start_level = 100, mode = TOTAL_RETURN\<rparr>)"

text \<open>
  Scenario C: the weights change from \<open>{A: 1}\<close> on day 1 to \<open>{A: 0.5, B: 0.5}\<close> on day 2, and
  A is disrupted on day 2.
\<close>

definition calc_scenario_c :: GSCIIndexCalculator where
  "calc_scenario_c = init_calculator
     (\<lambda>d. if d = 1 then [(''A'', 1)] else [(''A'', 1/2), (''B'', 1/2)])
     (\<lambda>d c. Some (if c = ''A'' then 10 else 5)) (\<lambda>d c. d = 2 \<and> c = ''A'') None None"

definition state_scenario_c :: IndexState where
  "state_scenario_c =
     \<lparr>levels = [(1, 100), (2, 100)],
      weights = [(1, [(''A'', 1)]), (2, [(''B'', 0), (''A'', 1)])],
      quantities = [(1, [(''A'', 10)]), (2, [(''A'', 10), (''B'', 0)])],
      price_cache = [((1, ''A''), 10), ((2, ''A''), 10), ((1, ''B''), 5)]\<rparr>"

section \<open>Properties\<close>

subsection \<open>Price lookups and the cache\<close>
lemma set_update_subset: "set (AList.update k v al) \<subseteq> insert (k, v) (set al)"
  by (induction al) auto

lemma cache_ok_empty: "cache_ok self empty_state"
  by (simp add: cache_ok_def empty_state_def)

lemma cache_ok_lookup:
  "cache_ok self st \<Longrightarrow> map_of (price_cache st) (d, c) = Some v \<Longrightarrow> price self d c = Some v"
  by (auto simp: cache_ok_def list_all_iff dest!: map_of_SomeD)

lemma cache_ok_update:
  "cache_ok self st \<Longrightarrow> price self d c = Some v \<Longrightarrow>
   cache_ok self (st\<lparr>price_cache := AList.update (d, c) v (price_cache st)\<rparr>)"
  using set_update_subset [of "(d, c)" v "price_cache st"]
  by (auto simp: cache_ok_def list_all_iff)

lemma cache_ok_books:
  "cache_ok self (st\<lparr>levels := l, quantities := q, weights := w\<rparr>) = cache_ok self st"
  by (simp add: cache_ok_def)

lemma get_price_books:
  "get_price self st d c = Inr (st', v) \<Longrightarrow>
   levels st' = levels st \<and> weights st' = weights st \<and> quantities st' = quantities st"
  by (auto simp: get_price_def split: option.splits)

lemma get_price_sound:
  "cache_ok self st \<Longrightarrow> get_price self st d c = Inr (st', v) \<Longrightarrow>
   price self d c = Some v \<and> cache_ok self st'"
  by (auto simp: get_price_def cache_ok_lookup cache_ok_update split: option.splits)

lemma get_price_error:
  "get_price self st d c = Inl e \<Longrightarrow> e = ProviderError \<and> map_of (price_cache st) (d, c) = None \<and> price self d c = None"
  by (auto simp: get_price_def split: option.splits)

lemma get_price_total:
  "price self d c = Some v \<Longrightarrow> cache_ok self st \<Longrightarrow> \<exists>st'. get_price self st d c = Inr (st', v)"
  by (auto simp: get_price_def dest: cache_ok_lookup split: option.splits)

lemma get_price_fails:
  "price self d c = None \<Longrightarrow> cache_ok self st \<Longrightarrow> get_price self st d c = Inl ProviderError"
  by (cases "map_of (price_cache st) (d, c)") (auto simp: get_price_def dest: cache_ok_lookup)

lemma safe_price_books:
  "safe_price self st d c = (st', v) \<Longrightarrow>
   levels st' = levels st \<and> weights st' = weights st \<and> quantities st' = quantities st"
  by (auto simp: safe_price_def dest: get_price_books split: sum.splits)

lemma safe_price_sound:
  "cache_ok self st \<Longrightarrow> safe_price self st d c = (st', v) \<Longrightarrow>
   v = provider_price self d c \<and> cache_ok self st'"
  by (auto simp: safe_price_def provider_price_def dest: get_price_sound get_price_error
      split: sum.splits)


text \<open>
  C8. The safe lookup cannot raise: its result is a state and a price, never an error. Where
  the price provider raises, the safe lookup returns the sentinel price 1 and leaves the state
  as it was; where the provider returns a price, the safe lookup returns that price and the
  cache holds it afterwards. It agrees with \<open>get_price\<close> wherever that succeeds.
\<close>

theorem safe_price_never_raises:
  assumes "cache_ok self st"
  shows "(price self d c = None \<longrightarrow> safe_price self st d c = (st, 1)) \<and>
         (\<forall>v. price self d c = Some v \<longrightarrow>
            snd (safe_price self st d c) = v \<and>
            map_of (price_cache (fst (safe_price self st d c))) (d, c) = Some v) \<and>
         (\<forall>e. get_price self st d c = Inl e \<longrightarrow> safe_price self st d c = (st, 1)) \<and>
         (\<forall>r. get_price self st d c = Inr r \<longrightarrow> safe_price self st d c = r) \<and>
         cache_ok self (fst (safe_price self st d c))"
proof (intro conjI allI impI)
  assume "price self d c = None"
  then show "safe_price self st d c = (st, 1)"
    using assms by (simp add: safe_price_def get_price_fails)
next
  fix v assume v: "price self d c = Some v"
  then obtain st' where g: "get_price self st d c = Inr (st', v)"
    using assms get_price_total by blast
  then show "snd (safe_price self st d c) = v"
    by (simp add: safe_price_def)
  show "map_of (price_cache (fst (safe_price self st d c))) (d, c) = Some v"
    using g by (auto simp: safe_price_def get_price_def update_conv' split: option.splits)
next
  fix e assume "get_price self st d c = Inl e"
  then show "safe_price self st d c = (st, 1)" by (simp add: safe_price_def)
next
  fix r assume "get_price self st d c = Inr r"
  then show "safe_price self st d c = r" by (simp add: safe_price_def)
next
  show "cache_ok self (fst (safe_price self st d c))"
    using assms safe_price_sound [of self st d c] by (cases "safe_price self st d c") auto
qed

theorem safe_price_never_raises_witness:
  "cache_ok calc_fail empty_state \<and>
   price calc_fail 1 ''B'' = None \<and> safe_price calc_fail empty_state 1 ''B'' = (empty_state, 1) \<and>
   price calc_fail 1 ''A'' = Some 10 \<and> snd (safe_price calc_fail empty_state 1 ''A'') = 10"
  using safe_price_never_raises [OF cache_ok_empty, of calc_fail 1 "''B''"]
    safe_price_never_raises [OF cache_ok_empty, of calc_fail 1 "''A''"]
  by (simp add: calc_fail_def init_calculator_def cache_ok_empty)


subsection \<open>The shape of a successful run\<close>

lemma get_prices_books:
  "get_prices self st d cs = Inr (st', ps) \<Longrightarrow>
   levels st' = levels st \<and> weights st' = weights st \<and> quantities st' = quantities st"
proof (induction cs arbitrary: st st' ps)
  case Nil
  then show ?case by simp
next
  case (Cons c cs)
  then show ?case
    by (fastforce split: sum.splits prod.splits dest: get_price_books)
qed

lemma compute_InrE:
  assumes "compute self parse dates il = Inr st"
  obtains ds t0 rest sl lv where "dates \<noteq> []" "to_dates parse dates = Inr ds"
    "sort ds = t0 # rest" "bootstrap self t0 (starting_level self il) = Inr sl"
    "run_steps self (zip (butlast (t0 # rest)) rest) sl = Inr (st, lv)"
  using assms
  by (auto simp: compute_def Let_def split: if_splits sum.splits list.splits prod.splits)

lemma to_dates_single: "to_dates parse [d] = Inr ds \<Longrightarrow> to_date parse d = Inr t0 \<Longrightarrow> ds = [t0]"
  by (auto split: sum.splits)


lemma eff_prices_books:
  "eff_prices self st t p_prev cs acc = Inr (st', pe) \<Longrightarrow>
   levels st' = levels st \<and> weights st' = weights st \<and> quantities st' = quantities st"
proof (induction cs arbitrary: st acc)
  case Nil
  then show ?case by simp
next
  case (Cons c cs)
  then show ?case
    by (fastforce split: sum.splits prod.splits if_splits dest: get_price_books)
qed

lemma prev_values_of_books:
  "prev_values_of self st t_prev qp pp cs = (st', vs) \<Longrightarrow>
   levels st' = levels st \<and> weights st' = weights st \<and> quantities st' = quantities st"
proof (induction cs arbitrary: st vs)
  case Nil
  then show ?case by simp
next
  case (Cons c cs)
  then show ?case
    by (fastforce simp: Let_def split: prod.splits dest: safe_price_books)
qed

lemma allocate_books:
  "allocate self st t_prev pp target rem cs acc = (st', qs) \<Longrightarrow>
   levels st' = levels st \<and> weights st' = weights st \<and> quantities st' = quantities st"
proof (induction cs arbitrary: st acc)
  case Nil
  then show ?case by simp
next
  case (Cons c cs)
  then show ?case
    by (fastforce simp: Let_def split: prod.splits dest: safe_price_books)
qed

lemma reconstitute_books:
  "reconstitute self st t_prev t qp pp cprev cnow = (st', qs) \<Longrightarrow>
   levels st' = levels st \<and> weights st' = weights st \<and> quantities st' = quantities st"
  by (fastforce simp: reconstitute_def Let_def split: prod.splits
      dest: prev_values_of_books allocate_books)

lemma step_InrE:
  assumes "step self (t_prev, t) (st, level) = Inr (st', level')"
  obtains quantities_prev st1 p_prev st2 p_eff_t er_return st3 quantities_t where
    "dict_index (quantities st) t_prev = Inr quantities_prev"
    "get_prices self st t_prev (map fst quantities_prev) = Inr (st1, p_prev)"
    "eff_prices self st1 t p_prev (map fst quantities_prev) [] = Inr (st2, p_eff_t)"
    "er_return_of quantities_prev p_prev p_eff_t = Inr er_return"
    "level_update self level er_return t_prev = Inr level'"
    "(if \<not> maps_close (normalize_weights (cpw self t_prev)) (normalize_weights (cpw self t)) default_tol
      then reconstitute self st2 t_prev t quantities_prev p_prev
             (normalize_weights (cpw self t_prev)) (normalize_weights (cpw self t))
      else (st2, quantities_prev)) = (st3, quantities_t)"
    "st' = st3\<lparr>levels := AList.update t level' (levels st3),
               quantities := AList.update t quantities_t (quantities st3),
               weights := AList.update t (weights_from_quantities quantities_t p_eff_t) (weights st3)\<rparr>"
    "levels st3 = levels st" "weights st3 = weights st" "quantities st3 = quantities st"
proof -
  from assms obtain quantities_prev st1 p_prev st2 p_eff_t er_return st3 quantities_t where
    a: "dict_index (quantities st) t_prev = Inr quantities_prev"
    "get_prices self st t_prev (map fst quantities_prev) = Inr (st1, p_prev)"
    "eff_prices self st1 t p_prev (map fst quantities_prev) [] = Inr (st2, p_eff_t)"
    "er_return_of quantities_prev p_prev p_eff_t = Inr er_return"
    "level_update self level er_return t_prev = Inr level'"
    and b: "(if \<not> maps_close (normalize_weights (cpw self t_prev)) (normalize_weights (cpw self t)) default_tol
      then reconstitute self st2 t_prev t quantities_prev p_prev
             (normalize_weights (cpw self t_prev)) (normalize_weights (cpw self t))
      else (st2, quantities_prev)) = (st3, quantities_t)"
    and c: "st' = st3\<lparr>levels := AList.update t level' (levels st3),
               quantities := AList.update t quantities_t (quantities st3),
               weights := AList.update t (weights_from_quantities quantities_t p_eff_t) (weights st3)\<rparr>"
    unfolding step_def Let_def
    by (simp split: sum.splits prod.splits)
  have "levels st3 = levels st2 \<and> weights st3 = weights st2 \<and> quantities st3 = quantities st2"
    using b by (auto split: if_splits dest: reconstitute_books)
  moreover have "levels st2 = levels st1 \<and> weights st2 = weights st1 \<and> quantities st2 = quantities st1"
    using a(3) by (rule eff_prices_books)
  moreover have "levels st1 = levels st \<and> weights st1 = weights st \<and> quantities st1 = quantities st"
    using a(2) by (rule get_prices_books)
  ultimately show ?thesis
    using a b c that by simp
qed


lemma bootstrap_InrE:
  assumes "bootstrap self t0 level = Inr (st, lv)"
  obtains st1 p_t0 quantities_t0 where
    "get_prices self empty_state t0 (map fst (normalize_weights (cpw self t0))) = Inr (st1, p_t0)"
    "init_quantities (normalize_weights (cpw self t0)) p_t0 level [] = Inr quantities_t0"
    "lv = level"
    "levels st = [(t0, level)]"
    "quantities st = [(t0, quantities_t0)]"
    "weights st = [(t0, weights_from_quantities quantities_t0 p_t0)]"
    "price_cache st = price_cache st1"
proof -
  obtain st1 p_t0 where
    a1: "get_prices self empty_state t0 (map fst (normalize_weights (cpw self t0))) = Inr (st1, p_t0)"
    using assms
    by (cases "get_prices self empty_state t0 (map fst (normalize_weights (cpw self t0)))")
      (auto simp: bootstrap_def Let_def)
  obtain quantities_t0 where
    a2: "init_quantities (normalize_weights (cpw self t0)) p_t0 level [] = Inr quantities_t0"
    using assms a1
    by (cases "init_quantities (normalize_weights (cpw self t0)) p_t0 level []")
      (auto simp: bootstrap_def Let_def)
  have b: "st = st1\<lparr>levels := AList.update t0 level (levels st1),
                    quantities := AList.update t0 quantities_t0 (quantities st1),
                    weights := AList.update t0 (weights_from_quantities quantities_t0 p_t0) (weights st1)\<rparr>"
      "lv = level"
    using assms a1 a2 by (auto simp: bootstrap_def Let_def)
  note a = a1 a2
  have "levels st1 = [] \<and> weights st1 = [] \<and> quantities st1 = []"
    using get_prices_books [OF a(1)] by (simp add: empty_state_def)
  then show ?thesis
    using a b that by simp
qed

lemma run_steps_invariant_aux:
  "run_steps self tts sl = Inr sl' \<Longrightarrow> P sl \<Longrightarrow>
   (\<forall>tt \<in> set tts. \<forall>s s'. P s \<longrightarrow> step self tt s = Inr s' \<longrightarrow> P s') \<Longrightarrow> P sl'"
proof (induction tts arbitrary: sl)
  case Nil
  then show ?case by simp
next
  case (Cons tt tts)
  from Cons.prems(1) obtain s1 where s1: "step self tt sl = Inr s1" "run_steps self tts s1 = Inr sl'"
    by (auto split: sum.splits)
  have "P s1" using Cons.prems(2,3) s1(1) by (meson list.set_intros(1))
  moreover have "\<forall>tt \<in> set tts. \<forall>s s'. P s \<longrightarrow> step self tt s = Inr s' \<longrightarrow> P s'"
    using Cons.prems(3) by (meson list.set_intros(2))
  ultimately show ?case
    by (rule Cons.IH [OF s1(2)])
qed

lemma run_steps_invariant:
  assumes "run_steps self tts sl = Inr sl'" and "P sl"
    and "\<And>tt s s'. tt \<in> set tts \<Longrightarrow> P s \<Longrightarrow> step self tt s = Inr s' \<Longrightarrow> P s'"
  shows "P sl'"
proof (rule run_steps_invariant_aux [where P = P, OF assms(1) assms(2)])
  show "\<forall>tt \<in> set tts. \<forall>s s'. P s \<longrightarrow> step self tt s = Inr s' \<longrightarrow> P s'"
    using assms(3) by blast
qed

lemma zip_butlast_Cons: "zip (butlast (a # b # r)) (b # r) = (a, b) # zip (butlast (b # r)) r"
  by simp

subsection \<open>The starting level\<close>

text \<open>
  C10. An explicit initial level of 0 is falsy: the run starts at \<open>start_level\<close> of the
  configuration (100 by default), exactly as a run with no initial level does, and a run over
  one date records that level at the date.
\<close>

theorem initial_level_zero_falls_back:
  "starting_level self (Some 0) = start_level (config self) \<and>
   start_level (config (init_calculator cp pr md co None)) = 100 \<and>
   compute self parse dates (Some 0) = compute self parse dates None \<and>
   (\<forall>t0 st. to_date parse d = Inr t0 \<and> compute self parse [d] (Some 0) = Inr st \<longrightarrow>
      levels st = [(t0, start_level (config self))])"
proof (intro conjI allI impI)
  show "starting_level self (Some 0) = start_level (config self)"
    by (simp add: starting_level_def)
  show "start_level (config (init_calculator cp pr md co None)) = 100"
    by (simp add: init_calculator_def default_config_def)
  have "starting_level self (Some 0) = starting_level self None"
    by (simp add: starting_level_def)
  then show "compute self parse dates (Some 0) = compute self parse dates None"
    unfolding compute_def by (simp only:)
next
  fix t0 st
  assume a: "to_date parse d = Inr t0 \<and> compute self parse [d] (Some 0) = Inr st"
  then obtain sl where b: "bootstrap self t0 (start_level (config self)) = Inr sl" and st: "st = fst sl"
    by (auto simp: starting_level_def elim!: compute_InrE dest!: to_dates_single [where ?t0.0 = t0])
  from b show "levels st = [(t0, start_level (config self))]"
    unfolding st
    by (auto simp: bootstrap_def Let_def empty_state_def split: sum.splits prod.splits
        dest!: get_prices_books)
qed


theorem initial_level_zero_falls_back_witness:
  "to_date no_parse (DateVal 1) = Inr 1 \<and>
   compute calc_fail no_parse [DateVal 1] (Some 0) =
     Inr \<lparr>levels = [(1, 100)], weights = [(1, [(''A'', 1)])], quantities = [(1, [(''A'', 10)])],
          price_cache = [((1, ''A''), 10)]\<rparr> \<and>
   start_level (config calc_fail) = 100"
proof -
  have c: "compute calc_fail no_parse [DateVal 1] (Some 0) =
     Inr \<lparr>levels = [(1, 100)], weights = [(1, [(''A'', 1)])], quantities = [(1, [(''A'', 10)])],
          price_cache = [((1, ''A''), 10)]\<rparr>"
    by code_simp
  have d: "to_date no_parse (DateVal 1) = Inr 1"
    by (simp add: to_date_def)
  from initial_level_zero_falls_back [of calc_fail _ _ _ _ no_parse "[]" "DateVal 1"] c d
  show ?thesis
    by (simp add: calc_fail_def init_calculator_def default_config_def)
qed

subsection \<open>Disrupted holdings on a reconstitution date\<close>

text \<open>
  C1. The code takes the disrupted set over the keys of the two weight maps, not over the
  holdings. Commodity A is held (10 units, frozen on day 2 while disrupted) and has left the
  weight maps by day 3; it is still disrupted on day 3, a reconstitution date, and its
  quantity is reset to 0 there.
\<close>

theorem dropped_disrupted_holding_is_reset:
  "compute calc_dropped no_parse [DateVal 1, DateVal 2, DateVal 3] None =
     Inr \<lparr>levels = [(1, 100), (2, 100), (3, 100)],
          weights = [(1, [(''A'', 1)]), (2, [(''B'', 0), (''A'', 1)]),
                     (3, [(''C'', 0), (''A'', 0), (''B'', 1)])],
          quantities = [(1, [(''A'', 10)]), (2, [(''A'', 10), (''B'', 0)]),
                        (3, [(''A'', 0), (''B'', 10), (''C'', 10)])],
          price_cache = [((1, ''A''), 10), ((2, ''A''), 10), ((1, ''B''), 5), ((2, ''B''), 5),
                         ((3, ''A''), 10), ((3, ''B''), 5), ((2, ''C''), 5)]\<rparr> \<and>
   mde calc_dropped 3 ''A'' \<and>
   \<not> maps_close (normalize_weights (cpw calc_dropped 2)) (normalize_weights (cpw calc_dropped 3)) default_tol"
  by code_simp


lemma compute_calc_dropped:
  "compute calc_dropped no_parse [DateVal 1, DateVal 2, DateVal 3] None = Inr state_dropped"
  by code_simp

subsection \<open>Reported weights\<close>

lemma sum_list_divide_const:
  "sum_list (map (\<lambda>x. f x / k) xs) = sum_list (map f xs) / (k::real)"
  by (induction xs) (simp_all add: add_divide_distrib)

lemma weights_from_quantities_sum:
  "(0 < portfolio_value qs ps \<longrightarrow> sum_list (map snd (weights_from_quantities qs ps)) = 1) \<and>
   (portfolio_value qs ps \<le> 0 \<longrightarrow> (\<forall>x \<in> set (weights_from_quantities qs ps). snd x = 0))"
proof -
  let ?ks = "keys_union (map fst qs) (map fst ps)"
  let ?f = "\<lambda>c. dict_get qs c 0 * dict_get ps c 0"
  have t: "sum_list (map snd (map (\<lambda>c. (c, ?f c)) ?ks)) = portfolio_value qs ps"
    by (simp add: portfolio_value_def comp_def)
  show ?thesis
  proof (cases "portfolio_value qs ps \<le> 0")
    case True
    then show ?thesis
      using t by (auto simp: weights_from_quantities_def Let_def)
  next
    case False
    have "sum_list (map snd (weights_from_quantities qs ps)) =
          sum_list (map (\<lambda>c. ?f c / portfolio_value qs ps) ?ks)"
      using False t by (simp add: weights_from_quantities_def Let_def comp_def)
    also have "\<dots> = portfolio_value qs ps / portfolio_value qs ps"
      by (simp add: sum_list_divide_const portfolio_value_def)
    finally show ?thesis using False by simp
  qed
qed

lemma step_weights_reported:
  assumes "step self tt (st, lv) = Inr (st', lv')" "weights_reported st"
  shows "weights_reported st'"
proof -
  obtain t_prev t where tt: "tt = (t_prev, t)" by (cases tt)
  from assms(1) [unfolded tt] show ?thesis
  proof (rule step_InrE)
    fix quantities_prev st1 p_prev st2 p_eff_t er_return st3 quantities_t
    assume st': "st' = st3\<lparr>levels := AList.update t lv' (levels st3),
               quantities := AList.update t quantities_t (quantities st3),
               weights := AList.update t (weights_from_quantities quantities_t p_eff_t) (weights st3)\<rparr>"
      and b: "weights st3 = weights st" "quantities st3 = quantities st"
    show "weights_reported st'"
      using assms(2) unfolding weights_reported_def st'
      by (auto simp: b update_conv')
  qed
qed

lemma bootstrap_weights_reported:
  assumes "bootstrap self t0 level = Inr (st, lv)"
  shows "weights_reported st"
  using assms by (rule bootstrap_InrE) (auto simp: weights_reported_def)


text \<open>
  C5. In the state a run returns, the weight map reported at a date is computed from the
  quantities recorded at that date and some price map. Its entries sum to exactly 1 (hence
  to 1 within 1e-9) when the value of those quantities at those prices is positive, and are
  all zero when that value is zero (or negative); there is no third case.
\<close>

theorem reported_weights_sum_to_one_or_vanish:
  assumes "compute self parse dates initial_level = Inr st"
    and "map_of (weights st) d = Some w"
  shows "\<exists>q p. map_of (quantities st) d = Some q \<and> w = weights_from_quantities q p \<and>
           (0 < portfolio_value q p \<longrightarrow> sum_list (map snd w) = 1) \<and>
           (portfolio_value q p \<le> 0 \<longrightarrow> (\<forall>x \<in> set w. snd x = 0)) \<and>
           (\<bar>sum_list (map snd w) - 1\<bar> \<le> 1 / 10 ^ 9 \<or> (\<forall>x \<in> set w. snd x = 0))"
proof -
  from assms(1) obtain ds t0 rest sl lv where
    b: "bootstrap self t0 (starting_level self initial_level) = Inr sl"
    and r: "run_steps self (zip (butlast (t0 # rest)) rest) sl = Inr (st, lv)"
    by (rule compute_InrE)
  have "weights_reported (fst sl)"
    using b bootstrap_weights_reported [of self t0 _ "fst sl" "snd sl"] by simp
  with r have "weights_reported (fst (st, lv))"
    by (rule run_steps_invariant [where P = "\<lambda>s. weights_reported (fst s)"])
      (auto dest: step_weights_reported)
  then obtain q p where q: "map_of (quantities st) d = Some q" "w = weights_from_quantities q p"
    using assms(2) unfolding weights_reported_def by fastforce
  from weights_from_quantities_sum [of q p] q show ?thesis
    by (cases "portfolio_value q p \<le> 0") auto
qed


theorem reported_weights_sum_to_one_or_vanish_witness:
  "compute calc_dropped no_parse [DateVal 1, DateVal 2, DateVal 3] None = Inr state_dropped \<and>
   map_of (weights state_dropped) 3 = Some [(''C'', 0), (''A'', 0), (''B'', 1)] \<and>
   (\<exists>q p. map_of (quantities state_dropped) 3 = Some q \<and>
      [(''C'', 0), (''A'', 0), (''B'', 1)] = weights_from_quantities q p) \<and>
   sum_list (map snd [(''C'', 0 :: real), (''A'', 0), (''B'', 1)]) = 1"
proof -
  have m: "map_of (weights state_dropped) 3 = Some [(''C'', 0), (''A'', 0), (''B'', 1)]"
    by (simp add: state_dropped_def)
  from reported_weights_sum_to_one_or_vanish [OF compute_calc_dropped m]
  have "\<exists>q p. map_of (quantities state_dropped) 3 = Some q \<and>
      [(''C'', 0), (''A'', 0), (''B'', 1)] = weights_from_quantities q p"
    by blast
  then show ?thesis using compute_calc_dropped m by simp
qed

subsection \<open>Date keys\<close>

lemma keys_update: "map fst (AList.update k v al) = add_key k (map fst al)"
  by (simp add: update_keys add_key_def image_iff)

lemma step_keys:
  assumes "step self (t_prev, t) (st, lv) = Inr (st', lv')"
  shows "map fst (levels st') = add_key t (map fst (levels st))"
    and "map fst (weights st') = add_key t (map fst (weights st))"
    and "map fst (quantities st') = add_key t (map fst (quantities st))"
  using assms by (auto elim!: step_InrE simp: keys_update)

lemma run_steps_keys:
  "run_steps self tts (st, lv) = Inr (st', lv') \<Longrightarrow>
   map fst (levels st') = fold add_key (map snd tts) (map fst (levels st)) \<and>
   map fst (weights st') = fold add_key (map snd tts) (map fst (weights st)) \<and>
   map fst (quantities st') = fold add_key (map snd tts) (map fst (quantities st))"
proof (induction tts arbitrary: st lv)
  case Nil
  then show ?case by simp
next
  case (Cons tt tts)
  obtain t_prev t where tt: "tt = (t_prev, t)" by (cases tt)
  from Cons.prems obtain st1 lv1 where
    s: "step self (t_prev, t) (st, lv) = Inr (st1, lv1)"
    and r: "run_steps self tts (st1, lv1) = Inr (st', lv')"
    by (auto simp: tt split: sum.splits)
  show ?case
    using Cons.IH [OF r] step_keys [OF s] by (simp add: tt)
qed

lemma fold_add_key_sorted:
  "sorted (ks @ ts) \<Longrightarrow> distinct ks \<Longrightarrow>
   sorted (fold add_key ts ks) \<and> distinct (fold add_key ts ks) \<and>
   set (fold add_key ts ks) = set ks \<union> set ts"
proof (induction ts arbitrary: ks)
  case Nil
  then show ?case by simp
next
  case (Cons t ts)
  show ?case
  proof (cases "t \<in> set ks")
    case True
    have "sorted (ks @ ts)"
      using Cons.prems(1) by (auto simp: sorted_append)
    from Cons.IH [OF this Cons.prems(2)] True show ?thesis
      by (auto simp: add_key_def)
  next
    case False
    have "sorted ((ks @ [t]) @ ts)" "distinct (ks @ [t])"
      using Cons.prems False by simp_all
    from Cons.IH [OF this] False show ?thesis
      by (auto simp: add_key_def)
  qed
qed

lemma fold_add_key_dates:
  assumes "sorted (t0 # rest)"
  shows "fold add_key rest [t0] = sorted_list_of_set (set (t0 # rest))"
proof -
  have "sorted ([t0] @ rest)" "distinct [t0]" using assms by simp_all
  from fold_add_key_sorted [OF this] show ?thesis
    by (metis Un_commute Un_insert_right finite_set list.simps(15) set_append
        sorted_list_of_set.idem_if_sorted_distinct sup_bot.right_neutral set_simps(1) empty_set)
qed

lemma map_snd_zip_butlast: "map snd (zip (butlast (t0 # rest)) rest) = rest"
  by (simp add: map_snd_zip_take)

lemma to_dates_length: "to_dates parse dates = Inr ds \<Longrightarrow> length ds = length dates"
  by (induction dates arbitrary: ds) (auto split: sum.splits)

text \<open>
  C6. After a successful run the keys of \<open>levels\<close>, \<open>weights\<close> and \<open>quantities\<close>, in
  insertion order, are the same list: the canonical dates of the input in ascending order
  without duplicates. The list depends on the set of input dates only, not on their order
  or multiplicity.
\<close>

theorem date_keys_sorted_deduplicated:
  assumes "compute self parse dates initial_level = Inr st"
    and "to_dates parse dates = Inr ds"
  shows "map fst (levels st) = sorted_list_of_set (set ds) \<and>
         map fst (weights st) = sorted_list_of_set (set ds) \<and>
         map fst (quantities st) = sorted_list_of_set (set ds)"
proof -
  from assms(1) obtain ds' t0 rest st0 lv0 lv where
    d: "to_dates parse dates = Inr ds'" and s: "sort ds' = t0 # rest"
    and b: "bootstrap self t0 (starting_level self initial_level) = Inr (st0, lv0)"
    and r: "run_steps self (zip (butlast (t0 # rest)) rest) (st0, lv0) = Inr (st, lv)"
    by (auto elim!: compute_InrE)
  have ds: "ds' = ds" using d assms(2) by simp
  have k0: "map fst (levels st0) = [t0]" "map fst (weights st0) = [t0]"
    "map fst (quantities st0) = [t0]"
    using b by (auto elim!: bootstrap_InrE)
  have srt: "sorted (t0 # rest)" using s by (metis sorted_sort)
  have "set (t0 # rest) = set ds" using s ds by (metis set_sort)
  then have "fold add_key rest [t0] = sorted_list_of_set (set ds)"
    using fold_add_key_dates [OF srt] by simp
  then show ?thesis
    using run_steps_keys [OF r] k0 by (simp add: map_snd_zip_butlast)
qed

theorem date_keys_sorted_deduplicated_witness:
  "compute calc_dropped no_parse [DateVal 3, DateVal 1, DateVal 2, DateVal 1] None =
     Inr state_dropped \<and>
   to_dates no_parse [DateVal 3, DateVal 1, DateVal 2, DateVal 1] = Inr [3, 1, 2, 1] \<and>
   map fst (levels state_dropped) = sorted_list_of_set (set [3, 1, 2, 1])"
proof -
  have c: "compute calc_dropped no_parse [DateVal 3, DateVal 1, DateVal 2, DateVal 1] None =
     Inr state_dropped"
    by code_simp
  have d: "to_dates no_parse [DateVal 3, DateVal 1, DateVal 2, DateVal 1] = Inr [3, 1, 2, 1]"
    by (simp add: to_date_def)
  from date_keys_sorted_deduplicated [OF c d] c d show ?thesis by simp
qed

subsection \<open>Buy and hold\<close>

lemma maps_close_refl: "maps_close a a default_tol"
  by (simp add: maps_close_def default_tol_def list_all_iff)

lemma step_quantities:
  assumes "step self (t_prev, t) (st, lv) = Inr (st', lv')"
  shows "\<exists>q_prev q_t. map_of (quantities st) t_prev = Some q_prev \<and>
           quantities st' = AList.update t q_t (quantities st) \<and>
           (maps_close (normalize_weights (cpw self t_prev)) (normalize_weights (cpw self t)) default_tol
              \<longrightarrow> q_t = q_prev)"
  using assms
  by (auto elim!: step_InrE simp: dict_index_def split: option.splits if_splits)

lemma run_steps_quantities_frame:
  "run_steps self (zip (butlast (b # r)) r) (st, lv) = Inr (st', lv') \<Longrightarrow> sorted (b # r) \<Longrightarrow>
   d \<le> b \<Longrightarrow> map_of (quantities st') d = map_of (quantities st) d"
proof (induction r arbitrary: b st lv)
  case Nil
  then show ?case by simp
next
  case (Cons c r)
  from Cons.prems(1) obtain st1 lv1 where
    s: "step self (b, c) (st, lv) = Inr (st1, lv1)"
    and r: "run_steps self (zip (butlast (c # r)) r) (st1, lv1) = Inr (st', lv')"
    by (auto split: sum.splits)
  have bc: "b \<le> c" and srt: "sorted (c # r)" using Cons.prems(2) by simp_all
  from s obtain q_prev q_t where
    q: "map_of (quantities st) b = Some q_prev"
    "quantities st1 = AList.update c q_t (quantities st)"
    "maps_close (normalize_weights (cpw self b)) (normalize_weights (cpw self c)) default_tol \<longrightarrow> q_t = q_prev"
    using step_quantities by blast
  have "map_of (quantities st1) d = map_of (quantities st) d"
  proof (cases "d = c")
    case True
    then have "b = c" using bc Cons.prems(3) by simp
    then have "q_t = q_prev" using q(3) maps_close_refl by simp
    then show ?thesis using q True \<open>b = c\<close> by (simp add: update_conv')
  next
    case False
    then show ?thesis using q by (simp add: update_conv')
  qed
  moreover have "map_of (quantities st') d = map_of (quantities st1) d"
    using Cons.IH [OF r srt] Cons.prems(3) bc by simp
  ultimately show ?case by simp
qed

lemma run_steps_hold:
  "run_steps self (zip (butlast (a # r)) r) (st, lv) = Inr (st', lv') \<Longrightarrow> sorted (a # r) \<Longrightarrow>
   (t_prev, t) \<in> set (zip (butlast (a # r)) r) \<Longrightarrow>
   maps_close (normalize_weights (cpw self t_prev)) (normalize_weights (cpw self t)) default_tol \<Longrightarrow>
   \<exists>q. map_of (quantities st') t = Some q \<and> map_of (quantities st') t_prev = Some q"
proof (induction r arbitrary: a st lv)
  case Nil
  then show ?case by simp
next
  case (Cons c r)
  from Cons.prems(1) obtain st1 lv1 where
    s: "step self (a, c) (st, lv) = Inr (st1, lv1)"
    and r: "run_steps self (zip (butlast (c # r)) r) (st1, lv1) = Inr (st', lv')"
    by (auto split: sum.splits)
  have ac: "a \<le> c" and srt: "sorted (c # r)" using Cons.prems(2) by simp_all
  from Cons.prems(3) consider "(t_prev, t) = (a, c)" | "(t_prev, t) \<in> set (zip (butlast (c # r)) r)"
    by auto
  then show ?case
  proof cases
    case 1
    from s obtain q_prev q_t where
      q: "map_of (quantities st) a = Some q_prev"
      "quantities st1 = AList.update c q_t (quantities st)"
      "maps_close (normalize_weights (cpw self a)) (normalize_weights (cpw self c)) default_tol \<longrightarrow> q_t = q_prev"
      using step_quantities by blast
    have qt: "q_t = q_prev" using q(3) Cons.prems(4) 1 by simp
    have "map_of (quantities st1) c = Some q_prev" "map_of (quantities st1) a = Some q_prev"
      using q(1,2) qt by (simp_all add: update_conv')
    moreover have "map_of (quantities st') c = map_of (quantities st1) c"
      "map_of (quantities st') a = map_of (quantities st1) a"
      using run_steps_quantities_frame [OF r srt] ac by simp_all
    ultimately show ?thesis using 1 by simp
  next
    case 2
    from Cons.IH [OF r srt 2 Cons.prems(4)] show ?thesis .
  qed
qed

text \<open>
  C4. Let \<open>t_prev\<close> and \<open>t\<close> be consecutive dates of the sorted date list of a successful run.
  If the normalized target weights of the two dates are equal within 1e-10 on every key (an
  absent key counting as 0), the comparison of the code finds no change, the step is a holding
  step, and the returned state records the
  same quantity map at \<open>t\<close> as at \<open>t_prev\<close>.
\<close>

theorem unchanged_weights_carry_quantities:
  assumes "compute self parse dates initial_level = Inr st"
    and "to_dates parse dates = Inr ds"
    and "(t_prev, t) \<in> set (zip (butlast (sort ds)) (tl (sort ds)))"
    and "\<forall>k. \<bar>dict_get (normalize_weights (cpw self t_prev)) k 0 -
                dict_get (normalize_weights (cpw self t)) k 0\<bar> \<le> 1 / 10 ^ 10"
  shows "maps_close (normalize_weights (cpw self t_prev)) (normalize_weights (cpw self t)) default_tol \<and>
         (\<exists>q. dict_index (quantities st) t = Inr q \<and> dict_index (quantities st) t_prev = Inr q)"
proof -
  have close: "maps_close (normalize_weights (cpw self t_prev)) (normalize_weights (cpw self t)) default_tol"
    using assms(4) by (simp add: maps_close_def default_tol_def list_all_iff not_less)
  from assms(1) obtain ds' t0 rest st0 lv0 lv where
    d: "to_dates parse dates = Inr ds'" and s: "sort ds' = t0 # rest"
    and r: "run_steps self (zip (butlast (t0 # rest)) rest) (st0, lv0) = Inr (st, lv)"
    by (auto elim!: compute_InrE)
  have ds: "ds' = ds" using d assms(2) by simp
  have srt: "sorted (t0 # rest)" using s by (metis sorted_sort)
  have "(t_prev, t) \<in> set (zip (butlast (t0 # rest)) rest)"
    using assms(3) s ds by simp
  from run_steps_hold [OF r srt this close] close show ?thesis
    by (auto simp: dict_index_def)
qed


theorem unchanged_weights_carry_quantities_witness:
  "compute calc_fail no_parse [DateVal 1, DateVal 2] None = Inr state_hold \<and>
   to_dates no_parse [DateVal 1, DateVal 2] = Inr [1, 2] \<and>
   (1 :: nat, 2 :: nat) \<in> set (zip (butlast (sort [1, 2])) (tl (sort [1, 2]))) \<and>
   (\<forall>k. \<bar>dict_get (normalize_weights (cpw calc_fail 1)) k 0 -
          dict_get (normalize_weights (cpw calc_fail 2)) k 0\<bar> \<le> 1 / 10 ^ 10) \<and>
   maps_close (normalize_weights (cpw calc_fail 1)) (normalize_weights (cpw calc_fail 2)) default_tol \<and>
   (\<exists>q. dict_index (quantities state_hold) 2 = Inr q \<and> dict_index (quantities state_hold) 1 = Inr q)"
proof -
  have c: "compute calc_fail no_parse [DateVal 1, DateVal 2] None = Inr state_hold"
    by code_simp
  have d: "to_dates no_parse [DateVal 1, DateVal 2] = Inr [1, 2]"
    by (simp add: to_date_def)
  have z: "(1 :: nat, 2 :: nat) \<in> set (zip (butlast (sort [1, 2])) (tl (sort [1, 2])))"
    by simp
  have m: "\<forall>k. \<bar>dict_get (normalize_weights (cpw calc_fail 1)) k 0 -
          dict_get (normalize_weights (cpw calc_fail 2)) k 0\<bar> \<le> 1 / 10 ^ 10"
    by (simp add: calc_fail_def init_calculator_def)
  from unchanged_weights_carry_quantities [OF c d z m] c d z m show ?thesis by simp
qed

subsection \<open>Price maps built during a step\<close>

lemma dict_get_map [simp]:
  "dict_get (map (\<lambda>c. (c, f c)) cs) c d = (if c \<in> set cs then f c else d)"
  by (simp add: dict_get_def map_of_map_restrict restrict_map_def)

lemma dict_index_Inr: "dict_index d k = Inr v \<longleftrightarrow> map_of d k = Some v"
  by (simp add: dict_index_def split: option.splits)

lemma dict_index_Inl: "dict_index d k = Inl e \<longleftrightarrow> e = KeyError \<and> map_of d k = None"
  by (auto simp: dict_index_def split: option.splits)

lemma get_prices_keys:
  "get_prices self st d cs = Inr (st', ps) \<Longrightarrow> map fst ps = cs"
  by (induction cs arbitrary: st ps) (auto split: sum.splits prod.splits)

lemma get_prices_error:
  "get_prices self st d cs = Inl e \<Longrightarrow> e = ProviderError"
  by (induction cs arbitrary: st) (auto split: sum.splits prod.splits dest: get_price_error)

lemma get_prices_sound:
  "cache_ok self st \<Longrightarrow> get_prices self st d cs = Inr (st', ps) \<Longrightarrow>
   cache_ok self st' \<and> ps = map (\<lambda>c. (c, provider_price self d c)) cs \<and>
   (\<forall>c \<in> set cs. price self d c \<noteq> None)"
proof (induction cs arbitrary: st ps)
  case Nil
  then show ?case by simp
next
  case (Cons c cs)
  from Cons.prems(2) obtain st1 p ps' where
    g: "get_price self st d c = Inr (st1, p)"
    and r: "get_prices self st1 d cs = Inr (st', ps')" and ps: "ps = (c, p) # ps'"
    by (auto split: sum.splits prod.splits)
  from get_price_sound [OF Cons.prems(1) g] have p: "price self d c = Some p" "cache_ok self st1"
    by simp_all
  from Cons.IH [OF p(2) r] p(1) ps show ?case
    by (simp add: provider_price_def)
qed

lemma get_prices_total:
  "cache_ok self st \<Longrightarrow> \<forall>c \<in> set cs. price self d c \<noteq> None \<Longrightarrow>
   \<exists>st' ps. get_prices self st d cs = Inr (st', ps)"
proof (induction cs arbitrary: st)
  case Nil
  then show ?case by simp
next
  case (Cons c cs)
  from Cons.prems(2) obtain v where v: "price self d c = Some v" by auto
  from get_price_total [OF v Cons.prems(1)] obtain st1 where
    g: "get_price self st d c = Inr (st1, v)" by blast
  from get_price_sound [OF Cons.prems(1) g] have "cache_ok self st1" by simp
  from Cons.IH [OF this] Cons.prems(2) obtain st' ps where
    "get_prices self st1 d cs = Inr (st', ps)" by auto
  with g show ?case by simp
qed

lemma eff_prices_ConsE:
  assumes "eff_prices self st t pp (c # cs) acc = r"
  obtains e where "get_price self st t c = Inl e" "r = Inl e"
  | st1 p_t where "get_price self st t c = Inr (st1, p_t)" "mde self t c" "map_of pp c = None"
      "r = Inl KeyError"
  | st1 p_t v where "get_price self st t c = Inr (st1, p_t)" "mde self t c" "map_of pp c = Some v"
      "r = eff_prices self st1 t pp cs (AList.update c v acc)"
  | st1 p_t where "get_price self st t c = Inr (st1, p_t)" "\<not> mde self t c"
      "r = eff_prices self st1 t pp cs (AList.update c p_t acc)"
proof (cases "get_price self st t c")
  case (Inl e)
  then show ?thesis using assms that(1) by simp
next
  case (Inr x)
  obtain st1 p_t where x: "x = (st1, p_t)" by (cases x)
  show ?thesis
  proof (cases "mde self t c")
    case True
    show ?thesis
    proof (cases "map_of pp c")
      case None
      then show ?thesis using assms Inr x True that(2) by (simp add: dict_index_def)
    next
      case (Some v)
      then show ?thesis using assms Inr x True that(3) by (simp add: dict_index_def)
    qed
  next
    case False
    then show ?thesis using assms Inr x that(4) by simp
  qed
qed

lemma eff_prices_error:
  "eff_prices self st t pp cs acc = Inl e \<Longrightarrow> \<forall>c \<in> set cs. map_of pp c \<noteq> None \<Longrightarrow>
   e = ProviderError"
proof (induction cs arbitrary: st acc)
  case Nil
  then show ?case by simp
next
  case (Cons c cs)
  have rest: "\<forall>c \<in> set cs. map_of pp c \<noteq> None" "map_of pp c \<noteq> None"
    using Cons.prems(2) by simp_all
  from Cons.prems(1) show ?case
  proof (cases rule: eff_prices_ConsE)
    case (1 e')
    then show ?thesis using get_price_error by blast
  next
    case (2 st1 p_t)
    then show ?thesis using rest by simp
  next
    case (3 st1 p_t v)
    then show ?thesis using Cons.IH [OF _ rest(1)] by metis
  next
    case (4 st1 p_t)
    then show ?thesis using Cons.IH [OF _ rest(1)] by metis
  qed
qed

lemma eff_prices_keys:
  "eff_prices self st t pp cs acc = Inr (st', pe) \<Longrightarrow>
   fst ` set pe = set cs \<union> fst ` set acc"
proof (induction cs arbitrary: st acc)
  case Nil
  then show ?case by simp
next
  case (Cons c cs)
  from Cons.prems(1) show ?case
  proof (cases rule: eff_prices_ConsE)
    case (1 e')
    then show ?thesis by simp
  next
    case (2 st1 p_t)
    then show ?thesis by simp
  next
    case (3 st1 p_t v)
    from Cons.IH [OF 3(4) [symmetric]] show ?thesis by (simp add: dom_update)
  next
    case (4 st1 p_t)
    from Cons.IH [OF 4(3) [symmetric]] show ?thesis by (simp add: dom_update)
  qed
qed

lemma eff_prices_sound:
  "cache_ok self st \<Longrightarrow> eff_prices self st t pp cs acc = Inr (st', pe) \<Longrightarrow>
   cache_ok self st' \<and>
   (\<forall>c. map_of pe c =
      (if c \<in> set cs then (if mde self t c then map_of pp c else price self t c)
       else map_of acc c)) \<and>
   (\<forall>c \<in> set cs. price self t c \<noteq> None)"
proof (induction cs arbitrary: st acc)
  case Nil
  then show ?case by simp
next
  case (Cons c cs)
  from Cons.prems(2) obtain st1 p_t where
    g: "get_price self st t c = Inr (st1, p_t)"
    by (auto split: sum.splits prod.splits)
  from get_price_sound [OF Cons.prems(1) g] have p: "price self t c = Some p_t" "cache_ok self st1"
    by simp_all
  show ?case
  proof (cases "mde self t c")
    case True
    with Cons.prems(2) g obtain v where
      v: "map_of pp c = Some v"
      and r: "eff_prices self st1 t pp cs (AList.update c v acc) = Inr (st', pe)"
      by (auto split: sum.splits simp: dict_index_Inr)
    from Cons.IH [OF p(2) r] True v p(1) show ?thesis
      by (auto simp: update_conv')
  next
    case False
    with Cons.prems(2) g have
      r: "eff_prices self st1 t pp cs (AList.update c p_t acc) = Inr (st', pe)"
      by simp
    from Cons.IH [OF p(2) r] False p(1) show ?thesis
      by (auto simp: update_conv')
  qed
qed

lemma eff_prices_total:
  "cache_ok self st \<Longrightarrow> \<forall>c \<in> set cs. price self t c \<noteq> None \<Longrightarrow>
   \<forall>c \<in> set cs. map_of pp c \<noteq> None \<Longrightarrow>
   \<exists>st' pe. eff_prices self st t pp cs acc = Inr (st', pe)"
proof (induction cs arbitrary: st acc)
  case Nil
  then show ?case by simp
next
  case (Cons c cs)
  from Cons.prems(2) obtain v where v: "price self t c = Some v" by auto
  from get_price_total [OF v Cons.prems(1)] obtain st1 where
    g: "get_price self st t c = Inr (st1, v)" by blast
  from get_price_sound [OF Cons.prems(1) g] have c1: "cache_ok self st1" by simp
  from Cons.prems(3) obtain w where w: "dict_index pp c = Inr w"
    by (auto simp: dict_index_def)
  have "\<exists>st' pe. eff_prices self st1 t pp cs (AList.update c w acc) = Inr (st', pe)"
    "\<exists>st' pe. eff_prices self st1 t pp cs (AList.update c v acc) = Inr (st', pe)"
    using Cons.IH [OF c1] Cons.prems(2,3) by simp_all
  with g w show ?case by auto
qed

lemma sum_products_error: "sum_products qs ps cs = Inl e \<Longrightarrow> e = KeyError"
  by (induction cs arbitrary: e) (auto split: sum.splits simp: dict_index_Inl)

lemma sum_products_total:
  "\<forall>c \<in> set cs. map_of qs c \<noteq> None \<and> map_of ps c \<noteq> None \<Longrightarrow>
   sum_products qs ps cs = Inr (sum_list (map (\<lambda>c. dict_get qs c 0 * dict_get ps c 0) cs))"
  by (induction cs) (auto simp: dict_index_def dict_get_def)

lemma sum_products_Inr:
  "sum_products qs ps cs = Inr s \<Longrightarrow>
   s = sum_list (map (\<lambda>c. dict_get qs c 0 * dict_get ps c 0) cs) \<and>
   (\<forall>c \<in> set cs. map_of qs c \<noteq> None \<and> map_of ps c \<noteq> None)"
  by (induction cs arbitrary: s) (auto split: sum.splits simp: dict_index_Inr dict_get_def)

lemma map_of_keys: "c \<in> set (map fst d) \<Longrightarrow> map_of d c \<noteq> None"
  by (simp add: map_of_eq_None_iff)

subsection \<open>The reconstitution loops\<close>

lemma prev_values_of_sound:
  "cache_ok self st \<Longrightarrow> prev_values_of self st t_prev qp pp cs = (st', vs) \<Longrightarrow>
   cache_ok self st' \<and>
   vs = map (\<lambda>c. (c, dict_get qp c 0 * dict_get pp c (provider_price self t_prev c))) cs"
proof (induction cs arbitrary: st vs)
  case Nil
  then show ?case by simp
next
  case (Cons c cs)
  obtain st1 sp where sp: "safe_price self st t_prev c = (st1, sp)"
    by (cases "safe_price self st t_prev c")
  obtain st2 rest where r: "prev_values_of self st1 t_prev qp pp cs = (st2, rest)"
    by (cases "prev_values_of self st1 t_prev qp pp cs")
  from safe_price_sound [OF Cons.prems(1) sp] have
    s: "sp = provider_price self t_prev c" "cache_ok self st1" by simp_all
  from Cons.prems(2) sp r have
    e: "st' = st2" "vs = (c, dict_get qp c 0 * dict_get pp c sp) # rest"
    by (simp_all add: Let_def)
  from r e(1) have r': "prev_values_of self st1 t_prev qp pp cs = (st', rest)" by simp
  from Cons.IH [OF s(2) r'] s(1) e show ?case by simp
qed

lemma keep_disrupted_lookup:
  "map_of (keep_disrupted qp cs acc) c =
     (if c \<in> set cs then Some (dict_get qp c 0) else map_of acc c)"
  by (induction cs arbitrary: acc) (simp_all add: update_conv')

lemma allocate_sound:
  "cache_ok self st \<Longrightarrow> allocate self st t_prev pp target rem cs acc = (st', qs) \<Longrightarrow>
   cache_ok self st' \<and>
   (\<forall>c. map_of qs c =
      (if c \<in> set cs
       then Some (if dict_get pp c (provider_price self t_prev c) = 0 then 0
                  else dict_get target c 0 * rem / dict_get pp c (provider_price self t_prev c))
       else map_of acc c))"
proof (induction cs arbitrary: st acc)
  case Nil
  then show ?case by simp
next
  case (Cons c cs)
  obtain st1 sp where sp: "safe_price self st t_prev c = (st1, sp)"
    by (cases "safe_price self st t_prev c")
  from safe_price_sound [OF Cons.prems(1) sp] have
    s: "sp = provider_price self t_prev c" "cache_ok self st1" by simp_all
  let ?q = "if dict_get pp c sp = 0 then 0 else dict_get target c 0 * rem / dict_get pp c sp"
  from Cons.prems(2) sp have
    r: "allocate self st1 t_prev pp target rem cs (AList.update c ?q acc) = (st', qs)"
    by (simp add: Let_def)
  from Cons.IH [OF s(2) r] s(1) show ?case
    by (auto simp: update_conv')
qed

text \<open>
  The reconstitution branch with its loops unrolled: the disrupted set of line 150 keeps its
  quantities, every other commodity of the universe is set from the renormalized targets and
  the remaining notional, at the previous price.
\<close>

lemma reconstitute_sound:
  assumes "cache_ok self st"
    and "reconstitute self st t_prev t q pp cprev cnow = (st', qs)"
    and "\<And>c. dict_get pp c (provider_price self t_prev c) = provider_price self t_prev c"
  shows "cache_ok self st'"
    and "\<And>c. c \<in> set (disrupted_of self t cprev cnow) \<Longrightarrow> map_of qs c = Some (dict_get q c 0)"
    and "\<And>c. c \<in> set (keys_union (map fst q) (map fst cnow)) \<Longrightarrow>
           c \<notin> set (disrupted_of self t cprev cnow) \<Longrightarrow>
           map_of qs c =
             Some (if provider_price self t_prev c = 0 then 0
                   else dict_get
                          (normalize_weights
                             (map (\<lambda>k. (k, dict_get cnow k 0))
                                (filter (\<lambda>k. k \<notin> set (disrupted_of self t cprev cnow))
                                   (keys_union (map fst q) (map fst cnow))))) c 0
                        * max (sum_list (map (\<lambda>k. dict_get q k 0 * provider_price self t_prev k)
                                          (keys_union (map fst q) (map fst cnow)))
                               - sum_list (map (\<lambda>k. if k \<in> set (keys_union (map fst q) (map fst cnow))
                                                     then dict_get q k 0 * provider_price self t_prev k
                                                     else 0)
                                               (disrupted_of self t cprev cnow))) 0
                        / provider_price self t_prev c)"
proof -
  let ?dis = "disrupted_of self t cprev cnow"
  let ?all = "keys_union (map fst q) (map fst cnow)"
  let ?v = "\<lambda>k. dict_get q k 0 * provider_price self t_prev k"
  obtain st1 pv where pv: "prev_values_of self st t_prev q pp ?all = (st1, pv)"
    by (cases "prev_values_of self st t_prev q pp ?all")
  from prev_values_of_sound [OF assms(1) pv] have
    c1: "cache_ok self st1"
    and pvs: "pv = map (\<lambda>k. (k, ?v k)) ?all"
    unfolding assms(3) by simp_all
  let ?nd = "filter (\<lambda>k. k \<notin> set ?dis) ?all"
  let ?target = "normalize_weights (map (\<lambda>k. (k, dict_get cnow k 0)) ?nd)"
  let ?rem = "max (sum_list (map snd pv) - sum_list (map (\<lambda>k. dict_get pv k 0) ?dis)) 0"
  from assms(2) pv have
    a: "allocate self st1 t_prev pp ?target ?rem ?nd (keep_disrupted q ?dis []) = (st', qs)"
    unfolding reconstitute_def by (simp add: Let_def)
  from allocate_sound [OF c1 a] have c2: "cache_ok self st'"
    and l: "\<And>c. map_of qs c =
      (if c \<in> set ?nd
       then Some (if provider_price self t_prev c = 0 then 0
                  else dict_get ?target c 0 * ?rem / provider_price self t_prev c)
       else map_of (keep_disrupted q ?dis []) c)"
    unfolding assms(3) by simp_all
  have tp: "sum_list (map snd pv) = sum_list (map ?v ?all)"
    unfolding pvs by (simp add: comp_def)
  have fx: "sum_list (map (\<lambda>k. dict_get pv k 0) ?dis) =
            sum_list (map (\<lambda>k. if k \<in> set ?all then ?v k else 0) ?dis)"
    unfolding pvs by simp
  show "cache_ok self st'" by (rule c2)
  show "map_of qs c = Some (dict_get q c 0)" if "c \<in> set ?dis" for c
    using that l [of c] by (simp add: keep_disrupted_lookup)
  show "map_of qs c =
      Some (if provider_price self t_prev c = 0 then 0
            else dict_get ?target c 0
                 * max (sum_list (map ?v ?all)
                        - sum_list (map (\<lambda>k. if k \<in> set ?all then ?v k else 0) ?dis)) 0
                 / provider_price self t_prev c)"
    if "c \<in> set ?all" "c \<notin> set ?dis" for c
  proof -
    have "c \<in> set ?nd" using that by simp
    then show ?thesis
      unfolding l [of c] tp fx by (simp only: if_True)
  qed
qed

subsection \<open>One step\<close>

lemma er_return_of_total:
  "\<forall>c \<in> set (map fst q). map_of pp c \<noteq> None \<and> map_of pe c \<noteq> None \<Longrightarrow>
   \<exists>er. er_return_of q pp pe = Inr er"
proof -
  assume a: "\<forall>c \<in> set (map fst q). map_of pp c \<noteq> None \<and> map_of pe c \<noteq> None"
  have k: "\<forall>c \<in> set (map fst q). map_of q c \<noteq> None"
    using map_of_keys by fastforce
  have "\<exists>s. sum_products q pp (map fst q) = Inr s" "\<exists>s. sum_products q pe (map fst q) = Inr s"
    using sum_products_total [of "map fst q" q pp] sum_products_total [of "map fst q" q pe] a k
    by auto
  then show ?thesis
    by (auto simp: er_return_of_def)
qed

lemma er_return_of_sound:
  assumes "er_return_of q pp pe = Inr er"
    and "\<forall>c \<in> set (map fst q). dict_get pp c 0 = provider_price self t_prev c"
    and "\<forall>c \<in> set (map fst q). dict_get pe c 0 = eff_price self t_prev t c"
  shows "er = er_return self t_prev t q"
proof -
  from assms(1) obtain vp where vp: "sum_products q pp (map fst q) = Inr vp"
    by (auto simp: er_return_of_def split: sum.splits)
  have vp': "vp = value_prev self t_prev q"
    using sum_products_Inr [OF vp] assms(2)
    by (simp add: value_prev_def cong: map_cong)
  show ?thesis
  proof (cases "vp \<le> 0")
    case True
    then show ?thesis using assms(1) vp vp' by (simp add: er_return_of_def er_return_def)
  next
    case False
    with assms(1) vp obtain vt where vt: "sum_products q pe (map fst q) = Inr vt"
      and er: "er = vt / vp - 1"
      by (auto simp: er_return_of_def split: sum.splits)
    have "vt = value_t self t_prev t q"
      using sum_products_Inr [OF vt] assms(3)
      by (simp add: value_t_def cong: map_cong)
    then show ?thesis using er vp' False by (simp add: er_return_def)
  qed
qed

lemma level_update_cases:
  "level_update self lv er t_prev =
     (if mode (config self) = TOTAL_RETURN \<and> collateral_rate self = None
      then Inl CollateralMissing
      else Inr (lv * (1 + er) * collateral_factor self t_prev))"
  by (auto simp: level_update_def collateral_factor_def Let_def split: option.splits)

lemma step_prices_sound:
  assumes "cache_ok self st"
    and "get_prices self st t_prev (map fst q) = Inr (st1, pp)"
    and "eff_prices self st1 t pp (map fst q) [] = Inr (st2, pe)"
  shows "cache_ok self st2"
    and "pp = map (\<lambda>c. (c, provider_price self t_prev c)) (map fst q)"
    and "\<forall>c \<in> set (map fst q). dict_get pp c 0 = provider_price self t_prev c"
    and "\<forall>c \<in> set (map fst q). dict_get pe c 0 = eff_price self t_prev t c"
    and "\<forall>c \<in> set (map fst q). price self t_prev c \<noteq> None \<and> price self t c \<noteq> None"
    and "\<And>c. dict_get pp c (provider_price self t_prev c) = provider_price self t_prev c"
proof -
  from get_prices_sound [OF assms(1,2)] have c1: "cache_ok self st1"
    and pp: "pp = map (\<lambda>c. (c, provider_price self t_prev c)) (map fst q)"
    and a1: "\<forall>c \<in> set (map fst q). price self t_prev c \<noteq> None"
    by simp_all
  from eff_prices_sound [OF c1 assms(3)] have c2: "cache_ok self st2"
    and l: "\<And>c. map_of pe c =
      (if c \<in> set (map fst q) then (if mde self t c then map_of pp c else price self t c)
       else None)"
    and a2: "\<forall>c \<in> set (map fst q). price self t c \<noteq> None"
    by simp_all
  show "cache_ok self st2" by (rule c2)
  show "pp = map (\<lambda>c. (c, provider_price self t_prev c)) (map fst q)" by (rule pp)
  show g: "\<forall>c \<in> set (map fst q). dict_get pp c 0 = provider_price self t_prev c"
  proof
    fix c assume c: "c \<in> set (map fst q)"
    have "dict_get (map (\<lambda>c. (c, provider_price self t_prev c)) (map fst q)) c 0 =
          (if c \<in> set (map fst q) then provider_price self t_prev c else 0)"
      by (rule dict_get_map)
    then show "dict_get pp c 0 = provider_price self t_prev c"
      using c unfolding pp by (simp only: if_True)
  qed
  show "\<forall>c \<in> set (map fst q). dict_get pe c 0 = eff_price self t_prev t c"
  proof
    fix c assume c: "c \<in> set (map fst q)"
    show "dict_get pe c 0 = eff_price self t_prev t c"
    proof (cases "mde self t c")
      case True
      then have "map_of pe c = map_of pp c" using l [of c] c by simp
      then have "dict_get pe c 0 = dict_get pp c 0" by (simp add: dict_get_def)
      moreover have "dict_get pp c 0 = provider_price self t_prev c" using g c by blast
      ultimately show ?thesis using True by (simp add: eff_price_def)
    next
      case False
      then have "map_of pe c = price self t c" using l [of c] c by simp
      moreover obtain v where "price self t c = Some v" using a2 c by auto
      ultimately show ?thesis using False
        by (simp add: dict_get_def eff_price_def provider_price_def)
    qed
  qed
  show "\<forall>c \<in> set (map fst q). price self t_prev c \<noteq> None \<and> price self t c \<noteq> None"
    using a1 a2 by simp
  show "dict_get pp c (provider_price self t_prev c) = provider_price self t_prev c" for c
    using dict_get_map [of "provider_price self t_prev" "map fst q" c "provider_price self t_prev c"]
    unfolding pp by (simp only: if_cancel)
qed

lemma step_sound:
  assumes "step self (t_prev, t) (st, lv) = Inr (st', lv')" and "cache_ok self st"
    and "map_of (quantities st) t_prev = Some q"
  shows "cache_ok self st'"
    and "lv' = lv * (1 + er_return self t_prev t q) * collateral_factor self t_prev"
    and "\<not> (mode (config self) = TOTAL_RETURN \<and> collateral_rate self = None)"
    and "map_of (levels st') t = Some lv'"
    and "\<forall>c \<in> set (map fst q). price self t_prev c \<noteq> None \<and> price self t c \<noteq> None"
  using assms(1)
proof (atomize (full), elim step_InrE, goal_cases)
  case (1 quantities_prev st1 p_prev st2 p_eff_t er st3 quantities_t)
  have q: "quantities_prev = q" using 1(1) assms(3) by (simp add: dict_index_Inr)
  note p = step_prices_sound [OF assms(2) 1(2) [unfolded q] 1(3) [unfolded q]]
  have er: "er = er_return self t_prev t q"
    using er_return_of_sound [OF 1(4) [unfolded q] p(3) p(4)] .
  have c3: "cache_ok self st3"
  proof (cases "maps_close (normalize_weights (cpw self t_prev)) (normalize_weights (cpw self t)) default_tol")
    case True
    then show ?thesis using 1(6) p(1) by simp
  next
    case False
    then have "reconstitute self st2 t_prev t q p_prev (normalize_weights (cpw self t_prev))
        (normalize_weights (cpw self t)) = (st3, quantities_t)"
      using 1(6) q by simp
    from reconstitute_sound(1) [OF p(1) this p(6)] show ?thesis .
  qed
  have lv: "\<not> (mode (config self) = TOTAL_RETURN \<and> collateral_rate self = None)"
    "lv' = lv * (1 + er) * collateral_factor self t_prev"
    using 1(5) by (auto simp: level_update_cases split: if_splits)
  show ?case
    using c3 lv er p(5) unfolding 1(7)
    by (simp add: update_conv' cache_ok_def)
qed

subsection \<open>Failures of a run\<close>

lemma cache_ok_cong: "price_cache st = price_cache st' \<Longrightarrow> cache_ok self st = cache_ok self st'"
  by (simp add: cache_ok_def)

lemma init_quantities_total:
  "\<forall>c \<in> set (map fst ws). map_of p c \<noteq> None \<Longrightarrow> \<exists>qs. init_quantities ws p level acc = Inr qs"
proof (induction ws arbitrary: acc)
  case Nil
  then show ?case by simp
next
  case (Cons x ws)
  obtain c w where x: "x = (c, w)" by (cases x)
  from Cons.prems obtain v where v: "dict_index p c = Inr v"
    by (auto simp: x dict_index_def)
  from Cons.IH Cons.prems show ?case
    by (simp add: x v)
qed

lemma bootstrap_total:
  assumes "\<forall>c. price self t0 c \<noteq> None"
  shows "\<exists>st. bootstrap self t0 level = Inr (st, level)"
proof -
  let ?ws = "normalize_weights (cpw self t0)"
  from get_prices_total [OF cache_ok_empty, of "map fst ?ws" self t0] assms obtain st1 p where
    g: "get_prices self empty_state t0 (map fst ?ws) = Inr (st1, p)" by auto
  from get_prices_keys [OF g] have "\<forall>c \<in> set (map fst ?ws). map_of p c \<noteq> None"
    using map_of_keys [of _ p] by simp
  from init_quantities_total [OF this] obtain qs where
    "init_quantities ?ws p level [] = Inr qs" by blast
  with g show ?thesis by (simp add: bootstrap_def Let_def)
qed

lemma bootstrap_error:
  assumes "bootstrap self t0 level = Inl e"
  shows "e = ProviderError"
proof (cases "get_prices self empty_state t0 (map fst (normalize_weights (cpw self t0)))")
  case (Inl e')
  then show ?thesis using assms get_prices_error [OF Inl] by (simp add: bootstrap_def Let_def)
next
  case (Inr x)
  obtain st1 p where x: "x = (st1, p)" by (cases x)
  from get_prices_keys [OF Inr [unfolded x]] have
    "\<forall>c \<in> set (map fst (normalize_weights (cpw self t0))). map_of p c \<noteq> None"
    using map_of_keys [of _ p] by simp
  from init_quantities_total [OF this] obtain qs where
    "init_quantities (normalize_weights (cpw self t0)) p level [] = Inr qs" by blast
  then show ?thesis using assms Inr x by (simp add: bootstrap_def Let_def)
qed

lemma bootstrap_sound:
  assumes "bootstrap self t0 level = Inr (st, lv)"
  shows "cache_ok self st" and "map_of (quantities st) t0 \<noteq> None"
    and "map_of (levels st) t0 = Some lv" and "lv = level"
  using assms
proof (atomize (full), elim bootstrap_InrE, goal_cases)
  case (1 st1 p_t0 quantities_t0)
  have "cache_ok self st1"
    using get_prices_sound [OF cache_ok_empty 1(1)] by simp
  then have "cache_ok self st"
    using cache_ok_cong [OF 1(7)] by simp
  then show ?case using 1 by simp
qed

lemma step_error:
  assumes "step self (t_prev, t) (st, lv) = Inl e" and "map_of (quantities st) t_prev = Some q"
  shows "e = ProviderError \<or>
         (e = CollateralMissing \<and> mode (config self) = TOTAL_RETURN \<and> collateral_rate self = None)"
proof -
  have q: "dict_index (quantities st) t_prev = Inr q"
    using assms(2) by (simp add: dict_index_Inr)
  show ?thesis
  proof (cases "get_prices self st t_prev (map fst q)")
    case (Inl e1)
    then show ?thesis using assms(1) q get_prices_error [OF Inl]
      by (simp add: step_def)
  next
    case (Inr x1)
    obtain st1 pp where x1: "x1 = (st1, pp)" by (cases x1)
    have kp: "\<forall>c \<in> set (map fst q). map_of pp c \<noteq> None"
      using get_prices_keys [OF Inr [unfolded x1]] map_of_keys [of _ pp] by simp
    show ?thesis
    proof (cases "eff_prices self st1 t pp (map fst q) []")
      case (Inl e2)
      then show ?thesis using assms(1) q Inr x1 eff_prices_error [OF Inl kp]
        by (simp add: step_def)
    next
      case (Inr x2)
      obtain st2 pe where x2: "x2 = (st2, pe)" by (cases x2)
      have "fst ` set pe = set (map fst q)"
        using eff_prices_keys [OF Inr [unfolded x2]] by simp
      then have ke: "\<forall>c \<in> set (map fst q). map_of pe c \<noteq> None"
        by (simp add: map_of_eq_None_iff)
      from er_return_of_total [of q pp pe] kp ke obtain er where
        er: "er_return_of q pp pe = Inr er" by auto
      show ?thesis
        using assms(1) q \<open>get_prices self st t_prev (map fst q) = Inr x1\<close> x1 Inr x2 er
        by (auto simp: step_def Let_def level_update_cases split: if_splits prod.splits)
    qed
  qed
qed

lemma step_total:
  assumes "cache_ok self st" and "map_of (quantities st) t_prev = Some q"
    and "\<forall>d c. price self d c \<noteq> None"
  shows "if mode (config self) = TOTAL_RETURN \<and> collateral_rate self = None
         then step self (t_prev, t) (st, lv) = Inl CollateralMissing
         else (\<exists>st' lv'. step self (t_prev, t) (st, lv) = Inr (st', lv'))"
proof -
  have q: "dict_index (quantities st) t_prev = Inr q"
    using assms(2) by (simp add: dict_index_Inr)
  from get_prices_total [OF assms(1), of "map fst q" t_prev] assms(3) obtain st1 pp where
    g: "get_prices self st t_prev (map fst q) = Inr (st1, pp)" by auto
  have c1: "cache_ok self st1" using get_prices_sound [OF assms(1) g] by simp
  have kp: "\<forall>c \<in> set (map fst q). map_of pp c \<noteq> None"
    using get_prices_keys [OF g] map_of_keys [of _ pp] by simp
  from eff_prices_total [OF c1, of "map fst q" t pp "[]"] assms(3) kp obtain st2 pe where
    e: "eff_prices self st1 t pp (map fst q) [] = Inr (st2, pe)" by auto
  have "fst ` set pe = set (map fst q)"
    using eff_prices_keys [OF e] by simp
  then have ke: "\<forall>c \<in> set (map fst q). map_of pe c \<noteq> None"
    by (simp add: map_of_eq_None_iff)
  from er_return_of_total [of q pp pe] kp ke obtain er where
    er: "er_return_of q pp pe = Inr er" by auto
  show ?thesis
    using q g e er
    by (auto simp: step_def Let_def level_update_cases split: prod.splits)
qed

lemma step_quantities_key:
  "step self (t_prev, t) (st, lv) = Inr (st', lv') \<Longrightarrow> map_of (quantities st') t \<noteq> None"
  by (auto elim!: step_InrE simp: update_conv')

lemma run_steps_error:
  "run_steps self (zip (butlast (a # r)) r) (st, lv) = Inl e \<Longrightarrow>
   map_of (quantities st) a \<noteq> None \<Longrightarrow>
   e = ProviderError \<or>
   (e = CollateralMissing \<and> mode (config self) = TOTAL_RETURN \<and> collateral_rate self = None \<and> r \<noteq> [])"
proof (induction r arbitrary: a st lv)
  case Nil
  then show ?case by simp
next
  case (Cons b r)
  from Cons.prems(2) obtain q where q: "map_of (quantities st) a = Some q" by auto
  show ?case
  proof (cases "step self (a, b) (st, lv)")
    case (Inl e')
    then have "e' = e" using Cons.prems(1) by simp
    then show ?thesis using step_error [OF Inl q] by auto
  next
    case (Inr x)
    obtain st1 lv1 where x: "x = (st1, lv1)" by (cases x)
    have r: "run_steps self (zip (butlast (b # r)) r) (st1, lv1) = Inl e"
      using Cons.prems(1) Inr x by simp
    from Cons.IH [OF r step_quantities_key [OF Inr [unfolded x]]] show ?thesis by auto
  qed
qed

lemma run_steps_total:
  "cache_ok self st \<Longrightarrow> map_of (quantities st) a \<noteq> None \<Longrightarrow> \<forall>d c. price self d c \<noteq> None \<Longrightarrow>
   (if mode (config self) = TOTAL_RETURN \<and> collateral_rate self = None \<and> r \<noteq> []
    then run_steps self (zip (butlast (a # r)) r) (st, lv) = Inl CollateralMissing
    else (\<exists>st' lv'. run_steps self (zip (butlast (a # r)) r) (st, lv) = Inr (st', lv')))"
proof (induction r arbitrary: a st lv)
  case Nil
  then show ?case by simp
next
  case (Cons b r)
  from Cons.prems(2) obtain q where q: "map_of (quantities st) a = Some q" by auto
  note t = step_total [OF Cons.prems(1) q Cons.prems(3), of b lv]
  show ?case
  proof (cases "mode (config self) = TOTAL_RETURN \<and> collateral_rate self = None")
    case True
    then show ?thesis using t by simp
  next
    case False
    with t obtain st1 lv1 where s: "step self (a, b) (st, lv) = Inr (st1, lv1)" by auto
    have c1: "cache_ok self st1" using step_sound(1) [OF s Cons.prems(1) q] .
    from Cons.IH [OF c1 step_quantities_key [OF s] Cons.prems(3), of lv1] False
    obtain st' lv' where "run_steps self (zip (butlast (b # r)) r) (st1, lv1) = Inr (st', lv')"
      by (auto split: if_splits)
    then have "run_steps self (zip (butlast (a # b # r)) (b # r)) (st, lv) = Inr (st', lv')"
      using s by (simp only: zip_butlast_Cons run_steps.simps sum.case)
    moreover have "\<not> (mode (config self) = TOTAL_RETURN \<and> collateral_rate self = None \<and> b # r \<noteq> [])"
      using False by simp
    ultimately show ?thesis by (simp only: if_False) blast
  qed
qed

lemma to_dates_error: "to_dates parse dates = Inl e \<Longrightarrow> e = BadIsoString"
  by (induction dates) (auto simp: to_date_def split: sum.splits DateLike.splits option.splits)

subsection \<open>The errors compute raises\<close>

lemma sort_eq_Cons_length: "sort ds = t0 # rest \<Longrightarrow> length ds = Suc (length rest)"
  by (metis length_Cons length_sort)

lemma compute_unfold:
  "dates \<noteq> [] \<Longrightarrow> to_dates parse dates = Inr ds \<Longrightarrow> sort ds = t0 # rest \<Longrightarrow>
   compute self parse dates il =
     (case bootstrap self t0 (starting_level self il) of
        Inl e \<Rightarrow> Inl e
      | Inr sl \<Rightarrow>
          (case run_steps self (zip (butlast (t0 # rest)) rest) sl of
             Inl e \<Rightarrow> Inl e
           | Inr (st, lv) \<Rightarrow> Inr st))"
  by (simp add: compute_def Let_def del: butlast.simps split: sum.splits)

lemma compute_empty: "compute self parse [] il = Inl EmptyDates"
  by (simp add: compute_def)

lemma compute_Inl:
  assumes "compute self parse dates il = Inl e"
  shows "(dates = [] \<and> e = EmptyDates) \<or>
         (dates \<noteq> [] \<and>
          (e = BadIsoString \<or> e = ProviderError \<or>
           (e = CollateralMissing \<and> mode (config self) = TOTAL_RETURN \<and>
            collateral_rate self = None \<and> 2 \<le> length dates)))"
proof (cases "dates = []")
  case True
  then show ?thesis using assms by (simp add: compute_def)
next
  case False
  show ?thesis
  proof (cases "to_dates parse dates")
    case (Inl e')
    then show ?thesis using assms False to_dates_error [OF Inl] by (simp add: compute_def)
  next
    case (Inr ds)
    have "length ds = length dates" using to_dates_length [OF Inr] .
    then have "sort ds \<noteq> []" using False by (metis length_0_conv length_sort)
    then obtain t0 rest where s: "sort ds = t0 # rest" by (cases "sort ds") auto
    have len: "length dates = Suc (length rest)"
      using sort_eq_Cons_length [OF s] \<open>length ds = length dates\<close> by simp
    show ?thesis
    proof (cases "bootstrap self t0 (starting_level self il)")
      case (Inl e')
      then show ?thesis
        using assms False bootstrap_error [OF Inl]
        by (simp add: compute_unfold [OF False \<open>to_dates parse dates = Inr ds\<close> s])
    next
      case b: (Inr sl)
      obtain st0 lv0 where sl: "sl = (st0, lv0)" by (cases sl)
      have r: "run_steps self (zip (butlast (t0 # rest)) rest) (st0, lv0) = Inl e"
        using assms b sl unfolding compute_unfold [OF False Inr s]
        by (simp split: sum.splits prod.splits del: butlast.simps)
      from run_steps_error [OF r bootstrap_sound(2) [OF b [unfolded sl]]] len False
      show ?thesis by (cases rest) auto
    qed
  qed
qed

lemma compute_total:
  assumes "\<forall>d c. price self d c \<noteq> None" and "to_dates parse dates = Inr ds" and "dates \<noteq> []"
  shows "if mode (config self) = TOTAL_RETURN \<and> collateral_rate self = None \<and> 2 \<le> length dates
         then compute self parse dates il = Inl CollateralMissing
         else (\<exists>st. compute self parse dates il = Inr st)"
proof -
  have "length ds = length dates" using to_dates_length [OF assms(2)] .
  then have "sort ds \<noteq> []" using assms(3) by (metis length_0_conv length_sort)
  then obtain t0 rest where s: "sort ds = t0 # rest" by (cases "sort ds") auto
  have len: "length dates = Suc (length rest)"
    using sort_eq_Cons_length [OF s] \<open>length ds = length dates\<close> by simp
  then have two: "2 \<le> length dates \<longleftrightarrow> rest \<noteq> []" by (cases rest) auto
  from bootstrap_total [of self t0 "starting_level self il"] assms(1) obtain st0 where
    b: "bootstrap self t0 (starting_level self il) = Inr (st0, starting_level self il)" by auto
  note t = run_steps_total [OF bootstrap_sound(1) [OF b] bootstrap_sound(2) [OF b] assms(1),
      of rest "starting_level self il"]
  show ?thesis
  proof (cases "mode (config self) = TOTAL_RETURN \<and> collateral_rate self = None \<and> rest \<noteq> []")
    case True
    with t have "run_steps self (zip (butlast (t0 # rest)) rest) (st0, starting_level self il) =
      Inl CollateralMissing" by simp
    then have "compute self parse dates il = Inl CollateralMissing"
      unfolding compute_unfold [OF assms(3,2) s] using b by (simp del: butlast.simps)
    then show ?thesis using True two by simp
  next
    case False
    with t obtain st' lv' where
      "run_steps self (zip (butlast (t0 # rest)) rest) (st0, starting_level self il) = Inr (st', lv')"
      by (auto split: if_splits)
    then have "compute self parse dates il = Inr st'"
      unfolding compute_unfold [OF assms(3,2) s] using b by (simp del: butlast.simps)
    then show ?thesis using False two by auto
  qed
qed

text \<open>
  C7. The errors that \<open>compute\<close> raises itself are two. It raises the empty-dates error
  exactly when the date sequence is empty. It raises the missing-collateral error only in
  total-return mode with no collateral-rate provider and at least two dates, that is, when a
  first accrual is due. It never fails with a key or index error of its own. Every other
  failure is an exception of a collaborator passing through (the ISO parser, the price
  provider): when the dates parse and the price provider does not raise, a run over a
  non-empty date sequence fails in the missing-collateral case and returns a state
  otherwise; in particular a total-return run over a single date returns.
\<close>

theorem compute_raises_in_two_cases:
  "(compute self parse dates il = Inl EmptyDates \<longleftrightarrow> dates = []) \<and>
   (compute self parse dates il = Inl CollateralMissing \<longrightarrow>
      mode (config self) = TOTAL_RETURN \<and> collateral_rate self = None \<and> 2 \<le> length dates) \<and>
   compute self parse dates il \<noteq> Inl KeyError \<and>
   compute self parse dates il \<noteq> Inl IndexError \<and>
   ((\<forall>d c. price self d c \<noteq> None) \<and> (\<exists>ds. to_dates parse dates = Inr ds) \<and> dates \<noteq> [] \<longrightarrow>
      (if mode (config self) = TOTAL_RETURN \<and> collateral_rate self = None \<and> 2 \<le> length dates
       then compute self parse dates il = Inl CollateralMissing
       else (\<exists>st. compute self parse dates il = Inr st)))"
proof -
  have a: "compute self parse dates il = Inl EmptyDates \<longleftrightarrow> dates = []"
    using compute_Inl [of self parse dates il EmptyDates] compute_empty [of self parse il] by auto
  have b: "compute self parse dates il = Inl CollateralMissing \<longrightarrow>
      mode (config self) = TOTAL_RETURN \<and> collateral_rate self = None \<and> 2 \<le> length dates"
    using compute_Inl [of self parse dates il CollateralMissing] by auto
  have c: "compute self parse dates il \<noteq> Inl KeyError"
    using compute_Inl [of self parse dates il KeyError] by auto
  have d: "compute self parse dates il \<noteq> Inl IndexError"
    using compute_Inl [of self parse dates il IndexError] by auto
  have e: "(\<forall>d c. price self d c \<noteq> None) \<and> (\<exists>ds. to_dates parse dates = Inr ds) \<and> dates \<noteq> [] \<longrightarrow>
      (if mode (config self) = TOTAL_RETURN \<and> collateral_rate self = None \<and> 2 \<le> length dates
       then compute self parse dates il = Inl CollateralMissing
       else (\<exists>st. compute self parse dates il = Inr st))"
    using compute_total [of self parse dates _ il] by blast
  from a b c d e show ?thesis by (intro conjI)
qed

theorem compute_raises_in_two_cases_witness:
  "(\<forall>d c. price calc_tr_missing d c \<noteq> None) \<and>
   to_dates no_parse [DateVal 1, DateVal 2] = Inr [1, 2] \<and>
   to_dates no_parse [DateVal 1] = Inr [1] \<and>
   mode (config calc_tr_missing) = TOTAL_RETURN \<and> collateral_rate calc_tr_missing = None \<and>
   compute calc_tr_missing no_parse [DateVal 1, DateVal 2] None = Inl CollateralMissing \<and>
   (\<exists>st. compute calc_tr_missing no_parse [DateVal 1] None = Inr st) \<and>
   compute calc_tr_missing no_parse [] None = Inl EmptyDates"
proof -
  have p: "\<forall>d c. price calc_tr_missing d c \<noteq> None"
    and m: "mode (config calc_tr_missing) = TOTAL_RETURN" "collateral_rate calc_tr_missing = None"
    by (simp_all add: calc_tr_missing_def init_calculator_def)
  have d2: "to_dates no_parse [DateVal 1, DateVal 2] = Inr [1, 2]"
    and d1: "to_dates no_parse [DateVal 1] = Inr [1]"
    by (simp_all add: to_date_def)
  have h2: "(\<forall>d c. price calc_tr_missing d c \<noteq> None) \<and>
      (\<exists>ds. to_dates no_parse [DateVal 1, DateVal 2] = Inr ds) \<and> [DateVal 1, DateVal 2] \<noteq> []"
    using p d2 by blast
  have h1: "(\<forall>d c. price calc_tr_missing d c \<noteq> None) \<and>
      (\<exists>ds. to_dates no_parse [DateVal 1] = Inr ds) \<and> [DateVal 1] \<noteq> []"
    using p d1 by blast
  note t2 = compute_raises_in_two_cases [of calc_tr_missing no_parse "[DateVal 1, DateVal 2]" None]
  note t1 = compute_raises_in_two_cases [of calc_tr_missing no_parse "[DateVal 1]" None]
  note t0 = compute_raises_in_two_cases [of calc_tr_missing no_parse "[]" None]
  have c2: "compute calc_tr_missing no_parse [DateVal 1, DateVal 2] None = Inl CollateralMissing"
    using t2 h2 m by (metis length_Cons list.size(3) numeral_2_eq_2 order_refl)
  have c1: "\<exists>st. compute calc_tr_missing no_parse [DateVal 1] None = Inr st"
  proof -
    have "\<not> (2::nat) \<le> length [DateVal 1]" by simp
    then show ?thesis using t1 h1 by meson
  qed
  have c0: "compute calc_tr_missing no_parse [] None = Inl EmptyDates"
    using t0 by blast
  show ?thesis using p m d1 d2 c0 c1 c2 by blast
qed

subsection \<open>The level recursion\<close>

lemma step_levels:
  "step self (t_prev, t) (st, lv) = Inr (st', lv') \<Longrightarrow>
   levels st' = AList.update t lv' (levels st)"
  by (auto elim!: step_InrE)

lemma run_steps_levels_frame:
  "run_steps self (zip (butlast (b # r)) r) (st, lv) = Inr (st', lv') \<Longrightarrow> sorted (b # r) \<Longrightarrow>
   distinct (b # r) \<Longrightarrow> d \<le> b \<Longrightarrow> map_of (levels st') d = map_of (levels st) d"
proof (induction r arbitrary: b st lv)
  case Nil
  then show ?case by simp
next
  case (Cons c r)
  from Cons.prems(1) obtain st1 lv1 where
    s: "step self (b, c) (st, lv) = Inr (st1, lv1)"
    and r: "run_steps self (zip (butlast (c # r)) r) (st1, lv1) = Inr (st', lv')"
    by (auto split: sum.splits)
  have bc: "b < c" using Cons.prems(2,3) by auto
  have srt: "sorted (c # r)" "distinct (c # r)" using Cons.prems(2,3) by simp_all
  have "map_of (levels st1) d = map_of (levels st) d"
    using step_levels [OF s] bc Cons.prems(4) by (simp add: update_conv')
  moreover have "map_of (levels st') d = map_of (levels st1) d"
    using Cons.IH [OF r srt] Cons.prems(4) bc by simp
  ultimately show ?case by simp
qed

lemma run_steps_level_step:
  "run_steps self (zip (butlast (a # r)) r) (st, lv) = Inr (st', lv') \<Longrightarrow> sorted (a # r) \<Longrightarrow>
   distinct (a # r) \<Longrightarrow> cache_ok self st \<Longrightarrow> map_of (levels st) a = Some lv \<Longrightarrow>
   (t_prev, t) \<in> set (zip (butlast (a # r)) r) \<Longrightarrow>
   \<exists>l q. map_of (levels st') t_prev = Some l \<and> map_of (quantities st') t_prev = Some q \<and>
     map_of (levels st') t =
       Some (l * (1 + er_return self t_prev t q) * collateral_factor self t_prev)"
proof (induction r arbitrary: a st lv)
  case Nil
  then show ?case by simp
next
  case (Cons c r)
  from Cons.prems(1) obtain st1 lv1 where
    s: "step self (a, c) (st, lv) = Inr (st1, lv1)"
    and r: "run_steps self (zip (butlast (c # r)) r) (st1, lv1) = Inr (st', lv')"
    by (auto split: sum.splits)
  have ac: "a < c" using Cons.prems(2,3) by auto
  have srt: "sorted (c # r)" "distinct (c # r)" using Cons.prems(2,3) by simp_all
  from step_quantities [OF s] obtain q q_t where
    q: "map_of (quantities st) a = Some q" "quantities st1 = AList.update c q_t (quantities st)"
    by blast
  note ss = step_sound [OF s Cons.prems(4) q(1)]
  from Cons.prems(6) consider "(t_prev, t) = (a, c)" | "(t_prev, t) \<in> set (zip (butlast (c # r)) r)"
    by auto
  then show ?case
  proof cases
    case 1
    have "map_of (levels st1) a = Some lv" "map_of (quantities st1) a = Some q"
      using step_levels [OF s] q ac Cons.prems(5) by (simp_all add: update_conv')
    moreover have "map_of (levels st') a = map_of (levels st1) a"
      "map_of (levels st') c = map_of (levels st1) c"
      using run_steps_levels_frame [OF r srt] ac by simp_all
    moreover have "map_of (quantities st') a = map_of (quantities st1) a"
      using run_steps_quantities_frame [OF r srt(1)] ac by simp
    ultimately show ?thesis using 1 ss(2,4) by simp
  next
    case 2
    from Cons.IH [OF r srt ss(1) ss(4) 2] show ?thesis .
  qed
qed

lemma er_return_flat:
  assumes "\<forall>c \<in> set (map fst q). eff_price self t_prev t c = provider_price self t_prev c"
  shows "er_return self t_prev t q = 0"
proof -
  have "value_t self t_prev t q = value_prev self t_prev q"
    using assms by (simp add: value_t_def value_prev_def cong: map_cong)
  then show ?thesis by (simp add: er_return_def)
qed

lemma flat_eff_price:
  "\<forall>d d' c. price self d c = price self d' c \<Longrightarrow>
   eff_price self t_prev t c = provider_price self t_prev c"
proof -
  assume a: "\<forall>d d' c. price self d c = price self d' c"
  then have "price self t c = price self t_prev c" by blast
  then show ?thesis by (simp add: eff_price_def provider_price_def)
qed

lemma run_steps_flat:
  "run_steps self (zip (butlast (a # r)) r) (st, lv) = Inr (st', lv') \<Longrightarrow>
   cache_ok self st \<Longrightarrow> map_of (levels st) a = Some lv \<Longrightarrow>
   \<forall>d d' c. price self d c = price self d' c \<Longrightarrow>
   \<forall>d. collateral_factor self d = k \<Longrightarrow>
   lv' = lv * k ^ length r \<and> map_of (levels st') (last (a # r)) = Some lv'"
proof (induction r arbitrary: a st lv)
  case Nil
  then show ?case by simp
next
  case (Cons c r)
  from Cons.prems(1) obtain st1 lv1 where
    s: "step self (a, c) (st, lv) = Inr (st1, lv1)"
    and r: "run_steps self (zip (butlast (c # r)) r) (st1, lv1) = Inr (st', lv')"
    by (auto split: sum.splits)
  from step_quantities [OF s] obtain q where
    q: "map_of (quantities st) a = Some q" by blast
  note ss = step_sound [OF s Cons.prems(2) q]
  have "er_return self a c q = 0"
    using er_return_flat [of q self a c] flat_eff_price [OF Cons.prems(4)] by simp
  then have lv1: "lv1 = lv * k" using ss(2) Cons.prems(5) by simp
  from Cons.IH [OF r ss(1) ss(4) Cons.prems(4,5)] lv1 show ?case
    by simp
qed

lemma sorted_last_hd:
  "sort ds = t0 # rest \<Longrightarrow> last (sort ds) = last (t0 # rest) \<and> hd (sort ds) = t0"
  by simp

text \<open>
  C3. Every iteration of the date loop, from \<open>a\<close> to \<open>b\<close> with running level \<open>l\<close> and the
  quantities \<open>q\<close> held at \<open>a\<close>, records at \<open>b\<close> the level
  \<open>l * (1 + er_return) * collateral factor\<close>. In the state a run over distinct dates returns, for consecutive dates \<open>t_prev\<close>, \<open>t\<close>
  the level at \<open>t\<close> is the level at \<open>t_prev\<close> times \<open>1 + er_return\<close>, times
  \<open>1 + collateral_rate(t_prev)\<close> in total-return mode; \<open>er_return\<close> is
  \<open>value_t / value_prev - 1\<close> for the quantities held at \<open>t_prev\<close>, valued at the previous
  prices and at the effective prices (a disrupted commodity keeps its previous price), and 0
  when \<open>value_prev \<le> 0\<close>. The level at the first date is the starting level. With flat
  prices in total-return mode and a constant collateral rate \<open>r\<close>, the level at the last date
  is the starting level times \<open>(1 + r) ^ n\<close> for \<open>n\<close> day-steps.
\<close>

theorem level_recursion:
  assumes "compute self parse dates initial_level = Inr st"
    and "to_dates parse dates = Inr ds"
  shows "(\<forall>a b s l s' l' q. step self (a, b) (s, l) = Inr (s', l') \<and> cache_ok self s \<and>
            map_of (quantities s) a = Some q \<longrightarrow>
              l' = l * (1 + er_return self a b q) * collateral_factor self a \<and>
              map_of (levels s') b = Some l') \<and>
         (distinct ds \<longrightarrow>
          (\<forall>t_prev t. (t_prev, t) \<in> set (zip (butlast (sort ds)) (tl (sort ds))) \<longrightarrow>
             (\<exists>l q. map_of (levels st) t_prev = Some l \<and> map_of (quantities st) t_prev = Some q \<and>
                map_of (levels st) t =
                  Some (l * (1 + er_return self t_prev t q) * collateral_factor self t_prev)))) \<and>
         (distinct ds \<longrightarrow> map_of (levels st) (hd (sort ds)) = Some (starting_level self initial_level)) \<and>
         ((\<forall>d d' c. price self d c = price self d' c) \<and> mode (config self) = TOTAL_RETURN \<and>
          (\<exists>rate. collateral_rate self = Some rate \<and> (\<forall>d. rate d = r)) \<longrightarrow>
            map_of (levels st) (last (sort ds)) =
              Some (starting_level self initial_level * (1 + r) ^ (length ds - 1)))"
proof -
  from assms(1) obtain ds' t0 rest st0 lv0 lv where
    d: "to_dates parse dates = Inr ds'" and s: "sort ds' = t0 # rest"
    and b: "bootstrap self t0 (starting_level self initial_level) = Inr (st0, lv0)"
    and r: "run_steps self (zip (butlast (t0 # rest)) rest) (st0, lv0) = Inr (st, lv)"
    by (auto elim!: compute_InrE)
  have ds: "ds' = ds" using d assms(2) by simp
  note s = s [unfolded ds]
  have srt: "sorted (t0 # rest)" using s by (metis sorted_sort)
  note bs = bootstrap_sound [OF b]
  have dist: "distinct (t0 # rest)" if "distinct ds"
    using that s by (metis distinct_sort)
  have len: "length ds - 1 = length rest"
    using sort_eq_Cons_length [OF s] by simp
  have p1: "\<exists>l q. map_of (levels st) t_prev = Some l \<and> map_of (quantities st) t_prev = Some q \<and>
      map_of (levels st) t = Some (l * (1 + er_return self t_prev t q) * collateral_factor self t_prev)"
    if "distinct ds" "(t_prev, t) \<in> set (zip (butlast (sort ds)) (tl (sort ds)))" for t_prev t
  proof -
    have "(t_prev, t) \<in> set (zip (butlast (t0 # rest)) rest)"
      using that(2) s by simp
    from run_steps_level_step [OF r srt dist [OF that(1)] bs(1) bs(3) this] show ?thesis .
  qed
  have p2: "map_of (levels st) (hd (sort ds)) = Some (starting_level self initial_level)"
    if "distinct ds"
    using run_steps_levels_frame [OF r srt dist [OF that], of t0] bs(3,4) s by simp
  have p3: "map_of (levels st) (last (sort ds)) =
      Some (starting_level self initial_level * (1 + r) ^ (length ds - 1))"
    if f: "\<forall>d d' c. price self d c = price self d' c" and m: "mode (config self) = TOTAL_RETURN"
      and c: "\<exists>rate. collateral_rate self = Some rate \<and> (\<forall>d. rate d = r)"
  proof -
    have k: "\<forall>d. collateral_factor self d = 1 + r"
      using m c by (auto simp: collateral_factor_def)
    from run_steps_flat [OF r bs(1) bs(3) f k] bs(4) len s show ?thesis
      by (simp del: last.simps)
  qed
  have p0: "l' = l * (1 + er_return self a b q) * collateral_factor self a \<and>
      map_of (levels s') b = Some l'"
    if "step self (a, b) (s, l) = Inr (s', l') \<and> cache_ok self s \<and> map_of (quantities s) a = Some q"
    for a b s l s' l' q
    using step_sound(2,4) [of self a b s l s' l' q] that by blast
  show ?thesis using p0 p1 p2 p3 by blast
qed


theorem level_recursion_witness:
  "compute calc_tr no_parse [DateVal 1, DateVal 2, DateVal 3] None = Inr state_tr \<and>
   to_dates no_parse [DateVal 1, DateVal 2, DateVal 3] = Inr [1, 2, 3] \<and>
   distinct [1, 2, 3 :: nat] \<and>
   (2 :: nat, 3 :: nat) \<in> set (zip (butlast (sort [1, 2, 3])) (tl (sort [1, 2, 3]))) \<and>
   (\<forall>d d' c. price calc_tr d c = price calc_tr d' c) \<and>
   mode (config calc_tr) = TOTAL_RETURN \<and>
   (\<exists>rate. collateral_rate calc_tr = Some rate \<and> (\<forall>d. rate d = 1 / 10000)) \<and>
   map_of (levels state_tr) 3 = Some (100 * (1 + 1 / 10000) ^ 2) \<and>
   (\<exists>l q. map_of (levels state_tr) 2 = Some l \<and> map_of (quantities state_tr) 2 = Some q \<and>
      map_of (levels state_tr) 3 =
        Some (l * (1 + er_return calc_tr 2 3 q) * collateral_factor calc_tr 2))"
proof -
  have c: "compute calc_tr no_parse [DateVal 1, DateVal 2, DateVal 3] None = Inr state_tr"
    by code_simp
  have d: "to_dates no_parse [DateVal 1, DateVal 2, DateVal 3] = Inr [1, 2, 3]"
    by (simp add: to_date_def)
  have di: "distinct [1, 2, 3 :: nat]" by simp
  have z: "(2 :: nat, 3 :: nat) \<in> set (zip (butlast (sort [1, 2, 3])) (tl (sort [1, 2, 3])))"
    by simp
  have f: "\<forall>d d' c. price calc_tr d c = price calc_tr d' c"
    and m: "mode (config calc_tr) = TOTAL_RETURN"
    and r: "\<exists>rate. collateral_rate calc_tr = Some rate \<and> (\<forall>d. rate d = 1 / 10000)"
    by (simp_all add: calc_tr_def init_calculator_def)
  have sl: "starting_level calc_tr None = 100"
    by (simp add: starting_level_def calc_tr_def init_calculator_def)
  have la: "last (sort [1, 2, 3 :: nat]) = 3" "length [1, 2, 3 :: nat] - 1 = 2" by simp_all
  note t = level_recursion [OF c d, of "1 / 10000"]
  have a: "map_of (levels state_tr) 3 = Some (100 * (1 + 1 / 10000) ^ 2)"
    using t f m r unfolding sl la by blast
  have b: "\<exists>l q. map_of (levels state_tr) 2 = Some l \<and> map_of (quantities state_tr) 2 = Some q \<and>
      map_of (levels state_tr) 3 =
        Some (l * (1 + er_return calc_tr 2 3 q) * collateral_factor calc_tr 2)"
    using t di z by blast
  show ?thesis using c d di z f m r a b by blast
qed

subsection \<open>Reconstitution\<close>

lemma run_steps_pair:
  "run_steps self (zip (butlast (a # r)) r) (st, lv) = Inr (st', lv') \<Longrightarrow> sorted (a # r) \<Longrightarrow>
   cache_ok self st \<Longrightarrow> (t_prev, t) \<in> set (zip (butlast (a # r)) r) \<Longrightarrow>
   \<exists>s0 l0 s1 l1 q. step self (t_prev, t) (s0, l0) = Inr (s1, l1) \<and> cache_ok self s0 \<and>
     map_of (quantities s0) t_prev = Some q \<and> map_of (quantities st') t_prev = Some q \<and>
     map_of (quantities st') t = map_of (quantities s1) t"
proof (induction r arbitrary: a st lv)
  case Nil
  then show ?case by simp
next
  case (Cons c r)
  from Cons.prems(1) obtain st1 lv1 where
    s: "step self (a, c) (st, lv) = Inr (st1, lv1)"
    and r: "run_steps self (zip (butlast (c # r)) r) (st1, lv1) = Inr (st', lv')"
    by (auto split: sum.splits)
  have ac: "a \<le> c" and srt: "sorted (c # r)" using Cons.prems(2) by simp_all
  from step_quantities [OF s] obtain q q_t where
    q: "map_of (quantities st) a = Some q" "quantities st1 = AList.update c q_t (quantities st)"
    "maps_close (normalize_weights (cpw self a)) (normalize_weights (cpw self c)) default_tol
       \<longrightarrow> q_t = q"
    by blast
  note ss = step_sound [OF s Cons.prems(3) q(1)]
  from Cons.prems(4) consider "(t_prev, t) = (a, c)" | "(t_prev, t) \<in> set (zip (butlast (c # r)) r)"
    by auto
  then show ?case
  proof cases
    case 1
    have "map_of (quantities st1) a = Some q"
    proof (cases "a = c")
      case True
      then have "q_t = q" using q(3) maps_close_refl by simp
      then show ?thesis using q True by (simp add: update_conv')
    next
      case False
      then show ?thesis using q by (simp add: update_conv')
    qed
    moreover have "map_of (quantities st') a = map_of (quantities st1) a"
      "map_of (quantities st') c = map_of (quantities st1) c"
      using run_steps_quantities_frame [OF r srt] ac by simp_all
    ultimately have "step self (t_prev, t) (st, lv) = Inr (st1, lv1) \<and> cache_ok self st \<and>
        map_of (quantities st) t_prev = Some q \<and> map_of (quantities st') t_prev = Some q \<and>
        map_of (quantities st') t = map_of (quantities st1) t"
      using 1 s Cons.prems(3) q(1) by simp
    then show ?thesis by (intro exI)
  next
    case 2
    from Cons.IH [OF r srt ss(1) 2] show ?thesis .
  qed
qed

text \<open>
  C2. The reconstitution formula of the specification takes the fixed notional over every
  commodity that the disruption provider flags at \<open>t\<close>. The code takes it over the flagged keys
  of the two weight maps only (line 150). On day 3 of the run of \<open>calc_dropped\<close>, a
  reconstitution date, commodity A is held (10 units worth 100), flagged, and a key of
  neither weight map: the specification fixes its notional, so the remaining notional is 0
  and commodity B, which is in the universe and not flagged, has the target quantity 0; the
  code treats A as tradable, distributes its 100 and records 10 units of B.
\<close>

theorem reconstitution_spends_flagged_holding:
  "compute calc_dropped no_parse [DateVal 1, DateVal 2, DateVal 3] None = Inr state_dropped \<and>
   \<not> maps_close (normalize_weights (cpw calc_dropped 2)) (normalize_weights (cpw calc_dropped 3))
        default_tol \<and>
   map_of (quantities state_dropped) 2 = Some [(''A'', 10), (''B'', 0)] \<and>
   universe calc_dropped 3 [(''A'', 10), (''B'', 0)] = [''A'', ''B'', ''C''] \<and>
   disrupted calc_dropped 3 [(''A'', 10), (''B'', 0)] = [''A''] \<and>
   \<not> mde calc_dropped 3 ''B'' \<and>
   total_prev calc_dropped 2 3 [(''A'', 10), (''B'', 0)] = 100 \<and>
   fixed_notional calc_dropped 2 3 [(''A'', 10), (''B'', 0)] = 100 \<and>
   remaining_notional calc_dropped 2 3 [(''A'', 10), (''B'', 0)] = 0 \<and>
   target_share calc_dropped 3 [(''A'', 10), (''B'', 0)] ''B'' = 1 / 2 \<and>
   target_quantity calc_dropped 2 3 [(''A'', 10), (''B'', 0)] ''B'' = 0 \<and>
   map_of (quantities state_dropped) 3 = Some [(''A'', 0), (''B'', 10), (''C'', 10)] \<and>
   dict_get [(''A'', 0), (''B'', 10), (''C'', 10)] ''B'' 0 = (10 :: real)"
  by code_simp

subsection \<open>Dependence on the providers\<close>

lemma get_price_cong:
  assumes "price self d = price self' d"
  shows "get_price self st d c = get_price self' st d c"
  unfolding get_price_def assms ..

lemma safe_price_cong:
  assumes "price self d = price self' d"
  shows "safe_price self st d c = safe_price self' st d c"
  unfolding safe_price_def get_price_cong [OF assms] ..

lemma get_prices_cong:
  "price self d = price self' d \<Longrightarrow> get_prices self st d cs = get_prices self' st d cs"
proof (induction cs arbitrary: st)
  case Nil
  show ?case by simp
next
  case (Cons c cs)
  show ?case
    unfolding get_prices.simps get_price_cong [OF Cons.prems] Cons.IH [OF Cons.prems] ..
qed

lemma eff_prices_cong:
  "price self t = price self' t \<Longrightarrow> mde self t = mde self' t \<Longrightarrow>
   eff_prices self st t pp cs acc = eff_prices self' st t pp cs acc"
proof (induction cs arbitrary: st acc)
  case Nil
  show ?case by simp
next
  case (Cons c cs)
  show ?case
    unfolding eff_prices.simps get_price_cong [OF Cons.prems(1)] Cons.prems(2)
      Cons.IH [OF Cons.prems] ..
qed

lemma prev_values_of_cong:
  "price self d = price self' d \<Longrightarrow>
   prev_values_of self st d qp pp cs = prev_values_of self' st d qp pp cs"
proof (induction cs arbitrary: st)
  case Nil
  show ?case by simp
next
  case (Cons c cs)
  show ?case
    unfolding prev_values_of.simps safe_price_cong [OF Cons.prems] Cons.IH [OF Cons.prems] ..
qed

lemma allocate_cong:
  "price self d = price self' d \<Longrightarrow>
   allocate self st d pp target rem cs acc = allocate self' st d pp target rem cs acc"
proof (induction cs arbitrary: st acc)
  case Nil
  show ?case by simp
next
  case (Cons c cs)
  show ?case
    unfolding allocate.simps safe_price_cong [OF Cons.prems] Cons.IH [OF Cons.prems] ..
qed

lemma disrupted_of_cong:
  assumes "mde self t = mde self' t"
  shows "disrupted_of self t cprev cnow = disrupted_of self' t cprev cnow"
  unfolding disrupted_of_def assms ..

lemma reconstitute_cong:
  assumes "price self t_prev = price self' t_prev" and "mde self t = mde self' t"
  shows "reconstitute self st t_prev t qp pp cprev cnow = reconstitute self' st t_prev t qp pp cprev cnow"
  unfolding reconstitute_def disrupted_of_cong [OF assms(2)] prev_values_of_cong [OF assms(1)]
    allocate_cong [OF assms(1)] ..

lemma level_update_cong:
  assumes "config self = config self'"
    and "rel_option (\<lambda>f g. f t_prev = g t_prev) (collateral_rate self) (collateral_rate self')"
  shows "level_update self lv er t_prev = level_update self' lv er t_prev"
  using assms
  by (cases "collateral_rate self"; cases "collateral_rate self'")
    (auto simp: level_update_def Let_def)

lemma providers_agreeD:
  assumes "providers_agree self self' d"
  shows "cpw self d = cpw self' d" and "price self d = price self' d"
    and "mde self d = mde self' d"
    and "rel_option (\<lambda>f g. f d = g d) (collateral_rate self) (collateral_rate self')"
  using assms by (auto simp: providers_agree_def)

lemma step_cong:
  assumes "config self = config self'"
    and "providers_agree self self' t_prev" and "providers_agree self self' t"
  shows "step self (t_prev, t) sl = step self' (t_prev, t) sl"
proof -
  note a = providers_agreeD [OF assms(2)] and b = providers_agreeD [OF assms(3)]
  show ?thesis
    unfolding step_def Let_def prod.case get_prices_cong [OF a(2)] eff_prices_cong [OF b(2) b(3)]
      level_update_cong [OF assms(1) a(4)] reconstitute_cong [OF a(2) b(3)] a(1) b(1) ..
qed

lemma run_steps_cong:
  "config self = config self' \<Longrightarrow>
   \<forall>tt \<in> set tts. providers_agree self self' (fst tt) \<and> providers_agree self self' (snd tt) \<Longrightarrow>
   run_steps self tts sl = run_steps self' tts sl"
proof (induction tts arbitrary: sl)
  case Nil
  show ?case by simp
next
  case (Cons tt tts)
  obtain t_prev t where tt: "tt = (t_prev, t)" by (cases tt)
  have ag: "providers_agree self self' t_prev" "providers_agree self self' t"
    using Cons.prems(2) by (simp_all add: tt)
  have s: "step self tt sl = step self' tt sl"
    unfolding tt by (rule step_cong [OF Cons.prems(1) ag])
  have "\<forall>tt \<in> set tts. providers_agree self self' (fst tt) \<and> providers_agree self self' (snd tt)"
    using Cons.prems(2) by simp
  note ih = Cons.IH [OF Cons.prems(1) this]
  show ?case
    unfolding run_steps.simps s ih ..
qed

lemma bootstrap_cong:
  assumes "providers_agree self self' t0"
  shows "bootstrap self t0 level = bootstrap self' t0 level"
proof -
  note a = providers_agreeD [OF assms]
  show ?thesis
    unfolding bootstrap_def get_prices_cong [OF a(2)] a(1) ..
qed

text \<open>
  The result of \<open>compute\<close> depends on the providers only through their outputs at the
  canonical dates of the input.
\<close>

lemma compute_local_in_dates:
  assumes "config self = config self'"
    and "\<forall>d \<in> dates_of parse dates. providers_agree self self' d"
  shows "compute self parse dates initial_level = compute self' parse dates initial_level"
proof (cases "dates = []")
  case True
  then show ?thesis by (simp add: compute_def)
next
  case False
  show ?thesis
  proof (cases "to_dates parse dates")
    case (Inl e)
    then show ?thesis by (simp add: compute_def)
  next
    case (Inr ds)
    have ag: "\<forall>d \<in> set ds. providers_agree self self' d"
      using assms(2) Inr by (simp add: dates_of_def)
    have "length ds = length dates" using to_dates_length [OF Inr] .
    then have "sort ds \<noteq> []" using False by (metis length_0_conv length_sort)
    then obtain t0 rest where s: "sort ds = t0 # rest" by (cases "sort ds") auto
    have set: "set (t0 # rest) = set ds" using s by (metis set_sort)
    have b: "bootstrap self t0 level = bootstrap self' t0 level" for level
      using ag set by (intro bootstrap_cong) auto
    have "\<forall>tt \<in> set (zip (butlast (t0 # rest)) rest).
        providers_agree self self' (fst tt) \<and> providers_agree self self' (snd tt)"
    proof
      fix tt assume "tt \<in> set (zip (butlast (t0 # rest)) rest)"
      then have "fst tt \<in> set (butlast (t0 # rest))" "snd tt \<in> set rest"
        by (metis in_set_zipE prod.collapse)+
      then have "fst tt \<in> set ds" "snd tt \<in> set ds"
        using set in_set_butlastD [of "fst tt" "t0 # rest"] by auto
      then show "providers_agree self self' (fst tt) \<and> providers_agree self self' (snd tt)"
        using ag by simp
    qed
    from run_steps_cong [OF assms(1) this] have
      r: "run_steps self (zip (butlast (t0 # rest)) rest) sl =
          run_steps self' (zip (butlast (t0 # rest)) rest) sl" for sl .
    have sl: "starting_level self initial_level = starting_level self' initial_level"
      unfolding starting_level_def assms(1) ..
    show ?thesis
      unfolding compute_unfold [OF False Inr s] b r sl ..
  qed
qed

end
